theory Spec2Isabelle
  imports Complex_Main "HOL-Library.Word"
begin

unbundle bit_operations_syntax

section \<open>Strings\<close>

text \<open>
  A JavaScript string is a sequence of UTF-16 code units. \<open>js\<close> writes an ASCII literal
  as such a sequence.
\<close>

type_synonym code_unit = "16 word"
type_synonym js_string = "code_unit list"

definition js :: "string \<Rightarrow> js_string" where
  "js cs = map (\<lambda>c. of_nat (of_char c)) cs"

section \<open>The stories collection (App.tsx)\<close>

datatype Difficulty = Beginner | Intermediate | Advanced

text \<open>
  \<open>interface Story\<close> of the type declarations. \<open>isSaved?: boolean\<close> is optional:
  \<open>None\<close> is the missing field.
\<close>

record Story =
  id :: js_string
  title :: js_string
  contentLearning :: js_string
  contentNative :: js_string
  wordsUsed :: "js_string list"
  createdAt :: int
  difficulty :: Difficulty
  isSaved :: "bool option"

text \<open>\<open>Partial<Story>\<close>: every field may be missing.\<close>

record StoryUpdates =
  u_id :: "js_string option"
  u_title :: "js_string option"
  u_contentLearning :: "js_string option"
  u_contentNative :: "js_string option"
  u_wordsUsed :: "js_string list option"
  u_createdAt :: "int option"
  u_difficulty :: "Difficulty option"
  u_isSaved :: "bool option"

definition no_updates :: StoryUpdates where
  "no_updates = \<lparr>u_id = None, u_title = None, u_contentLearning = None,
     u_contentNative = None, u_wordsUsed = None, u_createdAt = None, u_difficulty = None,
     u_isSaved = None\<rparr>"

text \<open>The truthiness of \<open>s.isSaved\<close>: a missing field and \<open>false\<close> are falsy.\<close>

definition saved :: "Story \<Rightarrow> bool" where
  "saved s = (isSaved s = Some True)"

text \<open>The object spread \<open>{ ...s, ...updates }\<close>.\<close>

definition spread :: "Story \<Rightarrow> StoryUpdates \<Rightarrow> Story" where
  "spread s u =
     \<lparr>id = (case u_id u of None \<Rightarrow> id s | Some v \<Rightarrow> v),
      title = (case u_title u of None \<Rightarrow> title s | Some v \<Rightarrow> v),
      contentLearning = (case u_contentLearning u of None \<Rightarrow> contentLearning s | Some v \<Rightarrow> v),
      contentNative = (case u_contentNative u of None \<Rightarrow> contentNative s | Some v \<Rightarrow> v),
      wordsUsed = (case u_wordsUsed u of None \<Rightarrow> wordsUsed s | Some v \<Rightarrow> v),
      createdAt = (case u_createdAt u of None \<Rightarrow> createdAt s | Some v \<Rightarrow> v),
      difficulty = (case u_difficulty u of None \<Rightarrow> difficulty s | Some v \<Rightarrow> v),
      isSaved = (case u_isSaved u of None \<Rightarrow> isSaved s | Some v \<Rightarrow> Some v)\<rparr>"

text \<open>
  The three handlers, each the function that \<open>setStories\<close> applies to the previous
  collection.
\<close>

definition handleAddStory :: "Story \<Rightarrow> Story list \<Rightarrow> Story list" where
  "handleAddStory story prev =
     (if \<not> saved story then story # filter saved prev else story # prev)"

definition handleUpdateStory :: "js_string \<Rightarrow> StoryUpdates \<Rightarrow> Story list \<Rightarrow> Story list" where
  "handleUpdateStory i updates prev = map (\<lambda>s. if id s = i then spread s updates else s) prev"

definition handleRemoveStory :: "js_string \<Rightarrow> Story list \<Rightarrow> Story list" where
  "handleRemoveStory i prev = filter (\<lambda>s. id s \<noteq> i) prev"

text \<open>
  \<open>handleSaveStory\<close> of the vocabulary list: the only caller of \<open>onUpdateStory\<close>, with
  \<open>{ isSaved: true }\<close>.
\<close>

definition handleSaveStory :: "js_string \<Rightarrow> Story list \<Rightarrow> Story list" where
  "handleSaveStory storyId prev = handleUpdateStory storyId (no_updates\<lparr>u_isSaved := Some True\<rparr>) prev"

datatype story_op = AddStory Story | SaveStory js_string | RemoveStory js_string

fun apply_story_op :: "Story list \<Rightarrow> story_op \<Rightarrow> Story list" where
  "apply_story_op prev (AddStory s) = handleAddStory s prev"
| "apply_story_op prev (SaveStory i) = handleSaveStory i prev"
| "apply_story_op prev (RemoveStory i) = handleRemoveStory i prev"

text \<open>The collection after a sequence of operations, from the initial \<open>useState([])\<close>.\<close>

definition stories_after :: "story_op list \<Rightarrow> Story list" where
  "stories_after ops = foldl apply_story_op [] ops"

definition drafts :: "Story list \<Rightarrow> Story list" where
  "drafts ss = filter (\<lambda>s. \<not> saved s) ss"

text \<open>A story for examples, with the given id and \<open>isSaved\<close> field.\<close>

definition example_story :: "string \<Rightarrow> bool option \<Rightarrow> Story" where
  "example_story i sv =
     \<lparr>id = js i, title = js ''A day out'', contentLearning = js ''Hello world. How are you?'',
      contentNative = js ''Hola.'', wordsUsed = [js ''w1''], createdAt = 1700000000000,
      difficulty = Beginner, isSaved = sv\<rparr>"

lemma drafts_add: "length (drafts ss) \<le> 1 \<Longrightarrow> length (drafts (handleAddStory s ss)) \<le> 1"
  by (simp add: handleAddStory_def drafts_def)

lemma saved_spread: "saved s \<Longrightarrow> saved (spread s (no_updates\<lparr>u_isSaved := Some True\<rparr>))"
  by (simp add: saved_def spread_def no_updates_def)

lemma saved_spread_True: "saved (spread s (no_updates\<lparr>u_isSaved := Some True\<rparr>))"
  by (simp add: saved_def spread_def no_updates_def)

lemma drafts_save_le: "length (drafts (handleSaveStory i ss)) \<le> length (drafts ss)"
  by (induction ss) (simp_all add: handleSaveStory_def handleUpdateStory_def drafts_def saved_spread_True)

lemma drafts_remove_le: "length (drafts (handleRemoveStory i ss)) \<le> length (drafts ss)"
  by (induction ss) (simp_all add: handleRemoveStory_def drafts_def)

lemma drafts_op: "length (drafts ss) \<le> 1 \<Longrightarrow> length (drafts (apply_story_op ss x)) \<le> 1"
proof (cases x)
  case (AddStory s)
  assume "length (drafts ss) \<le> 1"
  then have "length (drafts (handleAddStory s ss)) \<le> 1" by (rule drafts_add)
  then show ?thesis using AddStory by simp
next
  case (SaveStory i)
  assume "length (drafts ss) \<le> 1"
  then have "length (drafts (handleSaveStory i ss)) \<le> 1"
    using drafts_save_le [of i ss] by linarith
  then show ?thesis using SaveStory by simp
next
  case (RemoveStory i)
  assume "length (drafts ss) \<le> 1"
  then have "length (drafts (handleRemoveStory i ss)) \<le> 1"
    using drafts_remove_le [of i ss] by linarith
  then show ?thesis using RemoveStory by simp
qed

lemma drafts_foldl:
  "length (drafts ss) \<le> 1 \<Longrightarrow> length (drafts (foldl apply_story_op ss ops)) \<le> 1"
proof (induction ops arbitrary: ss)
  case Nil
  then show ?case by simp
next
  case (Cons x ops)
  have "length (drafts (apply_story_op ss x)) \<le> 1"
    using Cons.prems by (rule drafts_op)
  then have "length (drafts (foldl apply_story_op (apply_story_op ss x) ops)) \<le> 1"
    by (rule Cons.IH)
  then show ?case by simp
qed

lemma drafts_stories_after: "length (drafts (stories_after ops)) \<le> 1"
proof -
  have "length (drafts []) \<le> 1" by (simp add: drafts_def)
  then have "length (drafts (foldl apply_story_op [] ops)) \<le> 1" by (rule drafts_foldl)
  then show ?thesis by (simp add: stories_after_def)
qed

lemma add_draft_shape:
  "\<not> saved story \<Longrightarrow>
     handleAddStory story prev = story # filter saved prev
     \<and> drafts (handleAddStory story prev) = [story]
     \<and> filter saved (handleAddStory story prev) = filter saved prev"
  by (simp add: handleAddStory_def drafts_def)

text \<open>
  C10. The collection holds at most one draft at all times. Adding an unsaved story
  puts it in front of the saved stories of the previous collection, all kept in order,
  and leaves it as the only draft; after any sequence of add, save and remove
  operations from the empty collection at most one story is a draft; and the same
  holds from any collection with at most one draft, such as one read back from
  storage.
\<close>

theorem C10_at_most_one_draft:
  "(\<not> saved story \<longrightarrow>
      handleAddStory story prev = story # filter saved prev
      \<and> drafts (handleAddStory story prev) = [story]
      \<and> filter saved (handleAddStory story prev) = filter saved prev)
   \<and> length (drafts (stories_after ops)) \<le> 1
   \<and> (length (drafts ss) \<le> 1 \<longrightarrow> length (drafts (foldl apply_story_op ss ops)) \<le> 1)"
  using add_draft_shape [of story prev] drafts_stories_after [of ops] drafts_foldl [of ss ops]
  by blast

theorem C10_at_most_one_draft_witness:
  "\<not> saved (example_story ''b'' (Some False))
   \<and> handleAddStory (example_story ''b'' (Some False))
         [example_story ''a'' None, example_story ''s'' (Some True)]
       = [example_story ''b'' (Some False), example_story ''s'' (Some True)]
   \<and> drafts (handleAddStory (example_story ''b'' (Some False))
         [example_story ''a'' None, example_story ''s'' (Some True)])
       = [example_story ''b'' (Some False)]
   \<and> length (drafts (stories_after
         [AddStory (example_story ''a'' None), AddStory (example_story ''b'' (Some False)),
          SaveStory (js ''b''), AddStory (example_story ''c'' None)])) \<le> 1"
proof -
  have h: "\<not> saved (example_story ''b'' (Some False))"
    by (simp add: saved_def example_story_def)
  have f: "filter saved [example_story ''a'' None, example_story ''s'' (Some True)]
      = [example_story ''s'' (Some True)]"
    by (simp add: saved_def example_story_def)
  show ?thesis
    using h C10_at_most_one_draft [of "example_story ''b'' (Some False)"
      "[example_story ''a'' None, example_story ''s'' (Some True)]"
      "[AddStory (example_story ''a'' None), AddStory (example_story ''b'' (Some False)),
        SaveStory (js ''b''), AddStory (example_story ''c'' None)]" "[]"]
    unfolding f by blast
qed

section \<open>PCM decoding (audio utilities)\<close>

text \<open>The exceptions of the platform that the audio code can meet.\<close>

datatype js_error = RangeError | NotSupportedError | InvalidCharacterError | InvalidStateError

type_synonym byte = "8 word"

text \<open>
  An element of a \<open>Float32Array\<close>. A 16-bit integer divided by 32768 is a dyadic
  fraction with a 16-bit numerator: binary floating point holds it exactly, so the
  sample is the rational itself. \<open>NaN\<close> is what \<open>undefined / 32768.0\<close> gives.
\<close>

datatype f32 = Num rat | NaN

text \<open>
  An \<open>AudioBuffer\<close>: \<open>channels b ! c\<close> is \<open>b.getChannelData(c)\<close>, and the
  number of frames is the length of each channel.
\<close>

record AudioBuffer =
  sampleRate :: int
  channels :: "f32 list list"

text \<open>
  \<open>new Int16Array(data.buffer)\<close>: a view of the bytes as little-endian 16-bit integers
  (the byte order of the platforms that run the code). The constructor raises a
  \<open>RangeError\<close> when the byte length is odd.
\<close>

fun int16_pairs :: "byte list \<Rightarrow> 16 word list" where
  "int16_pairs (lo # hi # rest) = (push_bit 8 (ucast hi) OR ucast lo) # int16_pairs rest"
| "int16_pairs _ = []"

definition Int16Array :: "byte list \<Rightarrow> js_error + 16 word list" where
  "Int16Array buffer = (if odd (length buffer) then Inl RangeError else Inr (int16_pairs buffer))"

text \<open>
  \<open>dataInt16[k] / 32768.0\<close>: the element is read as a signed integer; an index out of
  range reads \<open>undefined\<close>.
\<close>

definition sample_at :: "16 word list \<Rightarrow> nat \<Rightarrow> f32" where
  "sample_at dataInt16 k =
     (if k < length dataInt16 then Num (of_int (sint (dataInt16 ! k)) / 32768) else NaN)"

text \<open>\<open>channelData[i] = v\<close>: a typed array ignores a write out of range.\<close>

definition f32_set :: "f32 list \<Rightarrow> nat \<Rightarrow> f32 \<Rightarrow> f32 list" where
  "f32_set a i v = (if i < length a then a[i := v] else a)"

text \<open>
  What \<open>decodeAudioData\<close> uses of its argument \<open>ctx\<close> is \<open>ctx.createBuffer\<close>, and
  what that depends on is the device: the largest channel count and the range of sample
  rates it supports. The Web Audio API asks of every implementation at least 32
  channels and the rates from 8000 to 96000 Hz (\<open>standard_limits\<close>); a device may
  support more.
\<close>

record audio_limits =
  max_channels :: nat
  min_rate :: int
  max_rate :: int

definition standard_limits :: audio_limits where
  "standard_limits = \<lparr>max_channels = 32, min_rate = 8000, max_rate = 96000\<rparr>"

definition supported :: "audio_limits \<Rightarrow> nat \<Rightarrow> int \<Rightarrow> bool" where
  "supported ctx numberOfChannels rate =
     (0 < numberOfChannels \<and> numberOfChannels \<le> max_channels ctx
      \<and> 0 < rate \<and> min_rate ctx \<le> rate \<and> rate \<le> max_rate ctx)"

text \<open>
  \<open>ctx.createBuffer(numberOfChannels, length, sampleRate)\<close> of the Web Audio API: a
  silent buffer, and a \<open>NotSupportedError\<close> when an argument is zero or outside what
  the device supports.
\<close>

definition createBuffer :: "audio_limits \<Rightarrow> nat \<Rightarrow> nat \<Rightarrow> int \<Rightarrow> js_error + AudioBuffer" where
  "createBuffer ctx numberOfChannels len rate =
     (if \<not> supported ctx numberOfChannels rate \<or> len = 0 then Inl NotSupportedError
      else Inr \<lparr>sampleRate = rate, channels = replicate numberOfChannels (replicate len (Num 0))\<rparr>)"

text \<open>
  The inner loop \<open>for (let i = 0; i < frameCount; i++)\<close>. \<open>frameCount\<close> is the
  quotient \<open>dataInt16.length / numChannels\<close> as a number, not rounded, so the loop
  runs for every \<open>i\<close> with \<open>i * numChannels < dataInt16.length\<close>.
\<close>

definition fill_channel :: "16 word list \<Rightarrow> nat \<Rightarrow> nat \<Rightarrow> f32 list \<Rightarrow> f32 list" where
  "fill_channel dataInt16 numChannels channel channelData =
     fold (\<lambda>i cd. f32_set cd i (sample_at dataInt16 (i * numChannels + channel)))
       [0 ..< (length dataInt16 + numChannels - 1) div numChannels] channelData"

text \<open>
  \<open>decodeAudioData(data, ctx, sampleRate, numChannels)\<close>. \<open>createBuffer\<close> takes its
  length as an unsigned integer: the platform truncates \<open>frameCount\<close>.
\<close>

definition decodeAudioData :: "byte list \<Rightarrow> audio_limits \<Rightarrow> int \<Rightarrow> nat \<Rightarrow> js_error + AudioBuffer" where
  "decodeAudioData data ctx rate numChannels =
     (case Int16Array data of
        Inl e \<Rightarrow> Inl e
      | Inr dataInt16 \<Rightarrow>
          (case createBuffer ctx numChannels (length dataInt16 div numChannels) rate of
             Inl e \<Rightarrow> Inl e
           | Inr buffer \<Rightarrow>
               Inr (fold (\<lambda>channel b.
                      b\<lparr>channels := (channels b)[channel :=
                          fill_channel dataInt16 numChannels channel (channels b ! channel)]\<rparr>)
                    [0 ..< numChannels] buffer)))"


text \<open>The signed 16-bit integer that two bytes spell, low byte first.\<close>

definition int16le :: "byte \<Rightarrow> byte \<Rightarrow> int" where
  "int16le lo hi = sint (push_bit 8 (ucast hi) OR ucast lo :: 16 word)"

lemma standard_supports: "supported standard_limits 1 24000"
  by (simp add: supported_def standard_limits_def)

lemma length_int16_pairs: "length (int16_pairs data) = length data div 2"
  by (induction data rule: int16_pairs.induct) simp_all

lemma nth_int16_pairs:
  "i < length data div 2 \<Longrightarrow>
     int16_pairs data ! i = push_bit 8 (ucast (data ! (2 * i + 1))) OR ucast (data ! (2 * i))"
proof (induction data arbitrary: i rule: int16_pairs.induct)
  case (1 lo hi rest)
  then show ?case by (cases i) simp_all
qed simp_all

lemma fold_f32_set:
  "k \<le> length xs \<Longrightarrow>
     fold (\<lambda>i cd. f32_set cd i (g i)) [0 ..< k] xs = map g [0 ..< k] @ drop k xs"
proof (induction k)
  case 0
  then show ?case by simp
next
  case (Suc k)
  then have k: "k < length xs" by simp
  have "fold (\<lambda>i cd. f32_set cd i (g i)) [0 ..< Suc k] xs
      = f32_set (map g [0 ..< k] @ drop k xs) k (g k)"
    using Suc by simp
  also have "\<dots> = (map g [0 ..< k] @ drop k xs)[k := g k]"
    using k by (simp add: f32_set_def)
  also have "\<dots> = map g [0 ..< k] @ (drop k xs)[0 := g k]"
    by (simp add: list_update_append)
  also have "(drop k xs)[0 := g k] = g k # drop (Suc k) xs"
    using k by (simp add: Cons_nth_drop_Suc [symmetric])
  finally show ?case by simp
qed

lemma sint16_bounds: "- 32768 \<le> sint (w :: 16 word) \<and> sint w < 32768"
  using sint_ge [of w] sint_lt [of w] by simp



lemma fill_channel_mono:
  "fill_channel d 1 0 (replicate (length d) v) = map (sample_at d) [0 ..< length d]"
  using fold_f32_set [of "length d" "replicate (length d) v" "sample_at d"]
  by (simp add: fill_channel_def)

lemma decode_mono:
  assumes "length data = 2 * N" and "0 < N" and "supported ctx 1 rate"
  shows "decodeAudioData data ctx rate 1
    = Inr \<lparr>sampleRate = rate, channels = [map (sample_at (int16_pairs data)) [0 ..< N]]\<rparr>"
proof -
  have len: "length (int16_pairs data) = N"
    using assms by (simp add: length_int16_pairs)
  have arr: "Int16Array data = Inr (int16_pairs data)"
    using assms by (simp add: Int16Array_def)
  have buf: "createBuffer ctx (Suc 0) N rate
      = Inr \<lparr>sampleRate = rate, channels = [replicate N (Num 0)]\<rparr>"
    using assms by (simp add: createBuffer_def)
  have fill: "fill_channel (int16_pairs data) (Suc 0) 0 (replicate N (Num 0))
      = map (sample_at (int16_pairs data)) [0 ..< N]"
    using fill_channel_mono [of "int16_pairs data" "Num 0"] len by simp
  show ?thesis
    by (simp add: decodeAudioData_def arr len buf fill)
qed

lemma sample_at_int16le:
  "i < length data div 2 \<Longrightarrow>
     sample_at (int16_pairs data) i
       = Num (of_int (int16le (data ! (2 * i)) (data ! (2 * i + 1))) / 32768)"
  by (simp add: sample_at_def length_int16_pairs nth_int16_pairs int16le_def)

lemma int16le_bounds: "- 32768 \<le> int16le lo hi \<and> int16le lo hi < 32768"
  unfolding int16le_def by (rule sint16_bounds)

lemma sample_range:
  "- 1 \<le> (of_int (int16le lo hi) / 32768 :: rat) \<and> (of_int (int16le lo hi) / 32768 :: rat) < 1"
proof -
  have "- 32768 \<le> (of_int (int16le lo hi) :: rat)" 
    using int16le_bounds [of lo hi] by (metis of_int_le_iff of_int_minus of_int_numeral)
  moreover have "(of_int (int16le lo hi) :: rat) < 32768"
    using int16le_bounds [of lo hi] by (metis of_int_less_iff of_int_numeral)
  ultimately show ?thesis by (simp add: divide_simps)
qed

text \<open>
  C5 (amended). For every byte buffer of length \<open>2 * N\<close> with \<open>N\<close> at least 1, decoded
  with channel count 1 at a sample rate that the device supports, as every device
  supports the 24000 Hz of the repository, \<open>decodeAudioData\<close> produces an audio buffer
  of that rate with one channel of exactly \<open>N\<close> frames, whose sample \<open>i\<close> is the
  \<open>i\<close>-th little-endian signed 16-bit integer divided by 32768 and lies in
  \<open>[-1, 1)\<close>.
\<close>

theorem C5_decode_mono:
  assumes "length data = 2 * N" and "0 < N" and "supported ctx 1 rate"
  shows "\<exists>buffer. decodeAudioData data ctx rate 1 = Inr buffer
     \<and> sampleRate buffer = rate
     \<and> length (channels buffer) = 1
     \<and> length (channels buffer ! 0) = N
     \<and> (\<forall>i < N. channels buffer ! 0 ! i
            = Num (of_int (int16le (data ! (2 * i)) (data ! (2 * i + 1))) / 32768))
     \<and> (\<forall>i < N. \<exists>q. channels buffer ! 0 ! i = Num q \<and> - 1 \<le> q \<and> q < 1)"
proof -
  let ?b = "\<lparr>sampleRate = rate, channels = [map (sample_at (int16_pairs data)) [0 ..< N]]\<rparr>"
  have d: "decodeAudioData data ctx rate 1 = Inr ?b"
    using assms by (rule decode_mono)
  have s: "\<forall>i < N. channels ?b ! 0 ! i
      = Num (of_int (int16le (data ! (2 * i)) (data ! (2 * i + 1))) / 32768)"
    using assms by (simp add: sample_at_int16le)
  have r: "\<forall>i < N. \<exists>q. channels ?b ! 0 ! i = Num q \<and> - 1 \<le> q \<and> q < 1"
    using s sample_range by blast
  show ?thesis
    using d s r by (intro exI [of _ ?b]) simp
qed

theorem C5_decode_mono_witness:
  "length [0x00, 0x80, 0xFF, 0x7F :: byte] = 2 * 2 \<and> (0::nat) < 2
   \<and> supported standard_limits 1 24000
   \<and> decodeAudioData [0x00, 0x80, 0xFF, 0x7F] standard_limits 24000 1
      = Inr \<lparr>sampleRate = 24000, channels = [[Num (- 1), Num (32767 / 32768)]]\<rparr>"
proof -
  have e: "decodeAudioData [0x00, 0x80, 0xFF, 0x7F] standard_limits 24000 1
      = Inr \<lparr>sampleRate = 24000, channels = [[Num (- 1), Num (32767 / 32768)]]\<rparr>"
    by code_simp
  have l: "length [0x00, 0x80, 0xFF, 0x7F :: byte] = 2 * 2" by simp
  have z: "(0::nat) < 2" by simp
  from C5_decode_mono [OF l z standard_supports]
  obtain buffer where "decodeAudioData [0x00, 0x80, 0xFF, 0x7F] standard_limits 24000 1 = Inr buffer"
    and "length (channels buffer ! 0) = 2"
    by blast
  then have "decodeAudioData [0x00, 0x80, 0xFF, 0x7F] standard_limits 24000 1
      = Inr \<lparr>sampleRate = 24000, channels = [[Num (- 1), Num (32767 / 32768)]]\<rparr>"
    using e by simp
  then show ?thesis
    using l z standard_supports by - (intro conjI, assumption+)
qed

text \<open>
  The claim as stated includes \<open>N = 0\<close>: there no buffer is produced, since
  \<open>createBuffer\<close> rejects a length of zero.
\<close>

theorem C5_empty_buffer_counterexample:
  "length ([] :: byte list) = 2 * 0 \<and> supported standard_limits 1 24000
   \<and> decodeAudioData [] standard_limits 24000 1 = Inl NotSupportedError"
  by (simp add: decodeAudioData_def Int16Array_def createBuffer_def supported_def
      standard_limits_def)


text \<open>
  With arguments that two devices both support, the call has the same outcome on
  both: the limits only decide whether \<open>createBuffer\<close> accepts its arguments.
\<close>

lemma decode_same_device:
  "supported ctx numChannels rate \<Longrightarrow> supported ctx' numChannels rate \<Longrightarrow>
     decodeAudioData data ctx rate numChannels = decodeAudioData data ctx' rate numChannels"
proof -
  assume "supported ctx numChannels rate" and "supported ctx' numChannels rate"
  then have "createBuffer ctx numChannels n rate = createBuffer ctx' numChannels n rate" for n
    by (simp add: createBuffer_def)
  then show ?thesis by (cases "Int16Array data") (simp_all add: decodeAudioData_def)
qed

section \<open>The sentence segmenter (vocabulary list)\<close>

text \<open>The class \<open>[.!?]\<close> of the pattern: full stop, exclamation mark, question mark.\<close>

definition is_terminal :: "code_unit \<Rightarrow> bool" where
  "is_terminal c = (c = 0x2E \<or> c = 0x21 \<or> c = 0x3F)"

text \<open>
  The class \<open>\s\<close>, which is also what \<open>trim\<close> removes: the white space and line
  terminator code units of ECMAScript.
\<close>

definition is_space :: "code_unit \<Rightarrow> bool" where
  "is_space c = (c = 0x9 \<or> c = 0xA \<or> c = 0xB \<or> c = 0xC \<or> c = 0xD \<or> c = 0x20 \<or> c = 0xA0
     \<or> c = 0x1680 \<or> (0x2000 \<le> c \<and> c \<le> 0x200A) \<or> c = 0x2028 \<or> c = 0x2029
     \<or> c = 0x202F \<or> c = 0x205F \<or> c = 0x3000 \<or> c = 0xFEFF)"

text \<open>
  The pattern is \<open>/[^.!?]+[.!?]+(\s|$)|[^.!?]+$/g\<close>. It is matched as a backtracking
  matcher does: \<open>star_cls p s k\<close> takes the longest run of \<open>p\<close> at the start of \<open>s\<close>
  and gives back one code unit at a time while the rest of the pattern, the continuation
  \<open>k\<close>, fails; a continuation returns what is left of the input after the whole match.
  \<open>plus_cls\<close> is a run of at least one.
\<close>

fun star_cls :: "('a \<Rightarrow> bool) \<Rightarrow> 'a list \<Rightarrow> ('a list \<Rightarrow> 'a list option) \<Rightarrow> 'a list option" where
  "star_cls p [] k = k []"
| "star_cls p (c # cs) k =
     (if p c then (case star_cls p cs k of Some r \<Rightarrow> Some r | None \<Rightarrow> k (c # cs))
      else k (c # cs))"

definition plus_cls :: "('a \<Rightarrow> bool) \<Rightarrow> 'a list \<Rightarrow> ('a list \<Rightarrow> 'a list option) \<Rightarrow> 'a list option" where
  "plus_cls p s k = (case s of [] \<Rightarrow> None | c # cs \<Rightarrow> if p c then star_cls p cs k else None)"

text \<open>The group \<open>(\s|$)\<close> at the end of the first alternative, and \<open>$\<close> at the end of the second.\<close>

definition space_or_end :: "js_string \<Rightarrow> js_string option" where
  "space_or_end s = (case s of [] \<Rightarrow> Some [] | c # cs \<Rightarrow> if is_space c then Some cs else None)"

definition end_of_input :: "js_string \<Rightarrow> js_string option" where
  "end_of_input s = (if s = [] then Some [] else None)"

text \<open>One attempt of the pattern at the start of \<open>s\<close>: the first alternative, then the second.\<close>

definition sentence_re :: "js_string \<Rightarrow> js_string option" where
  "sentence_re s =
     (case plus_cls (\<lambda>c. \<not> is_terminal c) s (\<lambda>s1. plus_cls is_terminal s1 space_or_end) of
        Some r \<Rightarrow> Some r
      | None \<Rightarrow> plus_cls (\<lambda>c. \<not> is_terminal c) s end_of_input)"

text \<open>
  The search from \<open>lastIndex\<close>: the first position from which the pattern matches,
  with the matched text and the input after it.
\<close>

fun exec_re :: "js_string \<Rightarrow> (js_string \<times> js_string) option" where
  "exec_re [] = (case sentence_re [] of Some r \<Rightarrow> Some ([], r) | None \<Rightarrow> None)"
| "exec_re (c # cs) =
     (case sentence_re (c # cs) of
        Some r \<Rightarrow> Some (take (length (c # cs) - length r) (c # cs), r)
      | None \<Rightarrow> exec_re cs)"

lemma star_cls_length: "(\<And>s' r. k s' = Some r \<Longrightarrow> length r \<le> length s') \<Longrightarrow> star_cls p s k = Some r \<Longrightarrow> length r \<le> length s"
proof (induction s arbitrary: r)
  case Nil
  then show ?case by force
next
  case (Cons c cs)
  show ?case
  proof (cases "p c \<and> star_cls p cs k \<noteq> None")
    case True
    then obtain r' where r': "star_cls p cs k = Some r'" by auto
    with True Cons.prems(2) have "r = r'" by simp
    moreover have "length r' \<le> length cs" using Cons.IH [OF Cons.prems(1) r'] .
    ultimately show ?thesis by simp
  next
    case False
    then have "k (c # cs) = Some r" using Cons.prems(2) by (auto split: option.splits if_splits)
    then show ?thesis using Cons.prems(1) by blast
  qed
qed

lemma plus_cls_length: "(\<And>s' r. k s' = Some r \<Longrightarrow> length r \<le> length s') \<Longrightarrow> plus_cls p s k = Some r \<Longrightarrow> length r < length s"
  using star_cls_length [of k p _ r]
  by (auto simp: plus_cls_def split: list.splits if_splits) fastforce

lemma space_or_end_length: "space_or_end s = Some r \<Longrightarrow> length r \<le> length s"
  by (auto simp: space_or_end_def split: list.splits if_splits)

lemma end_of_input_length: "end_of_input s = Some r \<Longrightarrow> length r \<le> length s"
  by (auto simp: end_of_input_def split: if_splits)

lemma sentence_re_length: "sentence_re s = Some r \<Longrightarrow> length r < length s"
proof -
  assume a: "sentence_re s = Some r"
  have k1: "\<And>s' r. plus_cls is_terminal s' space_or_end = Some r \<Longrightarrow> length r \<le> length s'"
    using plus_cls_length [of space_or_end is_terminal] space_or_end_length by (meson less_imp_le_nat)
  show ?thesis
  proof (cases "plus_cls (\<lambda>c. \<not> is_terminal c) s (\<lambda>s1. plus_cls is_terminal s1 space_or_end)")
    case None
    with a have "plus_cls (\<lambda>c. \<not> is_terminal c) s end_of_input = Some r" by (simp add: sentence_re_def)
    then show ?thesis using plus_cls_length [of end_of_input] end_of_input_length by blast
  next
    case (Some r')
    with a have "r' = r" by (simp add: sentence_re_def)
    with Some show ?thesis using plus_cls_length [of "\<lambda>s1. plus_cls is_terminal s1 space_or_end"] k1 by blast
  qed
qed

lemma exec_re_length: "exec_re s = Some (m, r) \<Longrightarrow> length r < length s"
proof (induction s)
  case Nil
  then show ?case using sentence_re_length [of "[]"] by (auto split: option.splits)
next
  case (Cons c cs)
  then show ?case using sentence_re_length [of "c # cs"] by (auto split: option.splits)
qed

text \<open>
  \<open>text.match(...)\<close> with the \<open>g\<close> flag: every match, each search starting where
  the match before ended. A match is never empty, so the search goes on in a shorter
  input. No match at all is \<open>null\<close> in the source, the empty list here.
\<close>

function match_all :: "js_string \<Rightarrow> js_string list" where
  "match_all s = (case exec_re s of None \<Rightarrow> [] | Some (m, r) \<Rightarrow> m # match_all r)"
  by pat_completeness auto
termination
  by (relation "measure length") (auto dest: exec_re_length)

text \<open>\<open>s.trim()\<close>.\<close>

definition trim :: "js_string \<Rightarrow> js_string" where
  "trim s = rev (dropWhile is_space (rev (dropWhile is_space s)))"

text \<open>
  \<open>splitSentences\<close>: \<open>[]\<close> for the empty text, \<open>[text]\<close> when \<open>match\<close> is
  \<open>null\<close>, else the matches, trimmed, without the empty ones (\<open>filter(Boolean)\<close>).
\<close>

definition splitSentences :: "js_string \<Rightarrow> js_string list" where
  "splitSentences text =
     (if text = [] then []
      else (case match_all text of [] \<Rightarrow> [text] | m # ms \<Rightarrow> filter (\<lambda>s. s \<noteq> []) (map trim (m # ms))))"



lemma star_then_terminal_None:
  "\<forall>c \<in> set cs. \<not> is_terminal c \<Longrightarrow> star_cls p cs (\<lambda>s1. plus_cls is_terminal s1 k) = None"
  by (induction cs) (simp_all add: plus_cls_def)

lemma star_to_end:
  "\<forall>c \<in> set cs. \<not> is_terminal c \<Longrightarrow> star_cls (\<lambda>c. \<not> is_terminal c) cs end_of_input = Some []"
  by (induction cs) (simp_all add: end_of_input_def)

lemma sentence_re_plain:
  assumes "\<forall>c \<in> set text. \<not> is_terminal c" and "text \<noteq> []"
  shows "sentence_re text = Some []"
proof -
  obtain c cs where t: "text = c # cs" using assms(2) by (cases "text") auto
  have c: "\<not> is_terminal c" and cs: "\<forall>c \<in> set cs. \<not> is_terminal c"
    using assms(1) t by auto
  have "plus_cls (\<lambda>c. \<not> is_terminal c) text (\<lambda>s1. plus_cls is_terminal s1 space_or_end) = None"
    using c star_then_terminal_None [OF cs] by (simp add: plus_cls_def t)
  moreover have "plus_cls (\<lambda>c. \<not> is_terminal c) text end_of_input = Some []"
    using c star_to_end [OF cs] by (simp add: plus_cls_def t)
  ultimately show ?thesis by (simp add: sentence_re_def)
qed

lemma exec_re_plain:
  assumes "\<forall>c \<in> set text. \<not> is_terminal c" and "text \<noteq> []"
  shows "exec_re text = Some (text, [])"
  using sentence_re_plain [OF assms] assms(2) by (cases "text") simp_all

lemma exec_re_Nil: "exec_re [] = None"
  by (simp add: sentence_re_def plus_cls_def)

lemma match_all_plain:
  assumes "\<forall>c \<in> set text. \<not> is_terminal c" and "text \<noteq> []"
  shows "match_all text = [text]"
  using exec_re_plain [OF assms] exec_re_Nil by simp

lemma trim_Nil: "trim [] = []"
  by (simp add: trim_def)

text \<open>
  C7 (amended). For every text with no terminal punctuation mark, the segmenter returns
  exactly one sentence, the trimmed text, when the trimmed text is not empty; for the
  empty text and for text of white space only it returns no sentence.
\<close>

theorem C7_unpunctuated_text:
  "\<forall>c \<in> set text. \<not> is_terminal c \<Longrightarrow>
     splitSentences text = (if trim text = [] then [] else [trim text])"
proof (cases "text = []")
  case True
  then show ?thesis by (simp add: splitSentences_def trim_Nil)
next
  case False
  assume "\<forall>c \<in> set text. \<not> is_terminal c"
  then have "match_all text = [text]" using False by (rule match_all_plain)
  then show ?thesis using False by (simp add: splitSentences_def)
qed

lemma plain_example: "list_all (\<lambda>c. \<not> is_terminal c) (js ''  hello world '')"
  by (simp add: js_def is_terminal_def)

lemma trim_example: "trim (js ''  hello world '') = js ''hello world''"
  by (simp add: js_def trim_def is_space_def)

theorem C7_unpunctuated_text_witness: "list_all (\<lambda>c. \<not> is_terminal c) (js ''  hello world '')
   \<and> splitSentences (js ''  hello world '') = [js ''hello world'']"
proof -
  have a: "\<forall>c \<in> set (js ''  hello world ''). \<not> is_terminal c"
    using plain_example by (simp add: list_all_iff)
  have n: "js ''hello world'' \<noteq> []" by (simp add: js_def)
  show ?thesis using plain_example trim_example n C7_unpunctuated_text [OF a] by simp
qed

text \<open>
  The claim as stated fails on white space: the only match trims to the empty string,
  which \<open>filter(Boolean)\<close> removes.
\<close>

theorem C7_blank_text_counterexample: "list_all (\<lambda>c. \<not> is_terminal c) (js ''  '')
   \<and> splitSentences (js ''  '') = []
   \<and> splitSentences (js ''  '') \<noteq> [trim (js ''  '')]"
  by code_simp

text \<open>
  C4. For a text with a terminal punctuation mark, the trimmed sentences, concatenated,
  should hold all of the text that is not white space. The segmenter does not do that:
  a full stop with no white space after it ends no match, the search moves on, and the
  text before it is in no sentence.
\<close>

theorem C4_segmenter_drops_text: "splitSentences (js ''It costs 3.5 dollars.'') = [js ''5 dollars.'']"
  by code_simp

section \<open>The playback controller (vocabulary list)\<close>

text \<open>
  \<open>handlePlayStory\<close> and the other handlers are asynchronous functions on one thread:
  a call runs until its next \<open>await\<close> and goes on when the awaited promise settles. The
  model is a transition system. Its state holds the component's state
  (\<open>playbackState\<close>, \<open>currentSentenceIdx\<close>, \<open>audioCtxRef.current\<close>,
  \<open>stopPlaybackFlag.current\<close>), every call of \<open>handlePlayStory\<close> made so far with the
  \<open>await\<close> it stands at, and the pending \<open>suspend()\<close> and \<open>resume()\<close> calls of
  the audio context; an event is a call of a handler by the user interface or the
  settling of an awaited promise, and a step runs the code between two awaits.
\<close>

datatype playback = Idle | Playing | Paused

text \<open>\<open>AudioContext.state\<close>.\<close>

datatype ctx_state = Running | Suspended | Closed

text \<open>
  What \<open>await generateSpeech(cleanText)\<close> gives: a rejection, no audio (\<open>null\<close>, or
  the empty string, which is falsy too), or a base64 string, which stands here as what
  \<open>decodeBase64\<close> makes of it: the exception of \<open>atob\<close>, or the bytes.
\<close>

datatype speech = Rejected | NoAudio | Audio "js_error + byte list"

text \<open>
  Where a call of \<open>handlePlayStory\<close> stands: at \<open>await handleStopPlayback()\<close>, at
  the timer of 50 ms, at \<open>await audioCtxRef.current.resume()\<close>, at
  \<open>await generateSpeech\<close>, at \<open>await decodeAudioData\<close> (with the settled promise),
  at the promise that \<open>source.onended\<close> resolves; or it has returned, or thrown.
\<close>

datatype pc = AwaitStop | AwaitTimer | AwaitResume | AwaitSpeech
  | AwaitDecode "js_error + AudioBuffer" | AwaitEnded | Returned | Threw js_error

text \<open>
  A call of \<open>handlePlayStory(text)\<close>: its argument, its local \<open>sentences\<close> (set when
  the loop is reached), the loop variable \<open>i\<close> and where it stands.
\<close>

record session =
  spoken :: js_string
  sentences :: "js_string list"
  cur :: nat
  pos :: pc

text \<open>
  Who awaits a pending \<open>suspend()\<close> or \<open>resume()\<close>: \<open>handleStopPlayback\<close> called
  by the user interface, \<open>handlePausePlayback\<close>, \<open>handleResumePlayback\<close>,
  \<open>handleStopPlayback\<close> called by session \<open>tid\<close>, or session \<open>tid\<close> at its own
  \<open>resume()\<close>. The first, second and fourth await a \<open>suspend()\<close>.
\<close>

datatype cont = StopK | PauseK | ResumeK | PlayStopK nat | PlayResumeK nat

text \<open>
  What a session does that is seen from outside, with the session and the sentence
  index: the call \<open>generateSpeech(cleanText)\<close>, \<open>source.start()\<close>, the run of
  \<open>source.onended\<close>, and \<open>console.error("Playback error", e)\<close>.
\<close>

datatype action = Fetch nat nat js_string | Start nat nat | Ended nat nat | LogError nat nat

text \<open>
  The state. \<open>audioCtx\<close> is \<open>None\<close> while \<open>audioCtxRef.current\<close> is \<open>null\<close>.
  \<open>ctx_queue\<close> holds the pending \<open>suspend()\<close> and \<open>resume()\<close> calls, oldest first;
  \<open>trace\<close> the actions so far, oldest first. \<open>audio_ok\<close> says whether
  \<open>new AudioContext\<close> succeeds on this device.
\<close>

record sys =
  playbackState :: playback
  currentSentenceIdx :: int
  audioCtx :: "ctx_state option"
  stopPlaybackFlag :: bool
  sessions :: "session list"
  ctx_queue :: "cont list"
  trace :: "action list"
  audio_ok :: bool

text \<open>
  The events: the four handlers called by the user interface; the oldest pending
  \<open>suspend()\<close> or \<open>resume()\<close> settles; the timer of a session fires; the speech
  request of a session settles; its decoding promise settles; its source ends.
\<close>

datatype event = Play js_string | Pause | Resume | Stop
  | CtxDone | TimerFired nat | SpeechResolved nat speech | DecodeDone nat | SourceEnded nat

text \<open>The state of the mounted component: the initial values of \<open>useState\<close> and \<open>useRef\<close>.\<close>

definition initial :: "bool \<Rightarrow> sys" where
  "initial ok = \<lparr>playbackState = Idle, currentSentenceIdx = - 1, audioCtx = None,
     stopPlaybackFlag = False, sessions = [], ctx_queue = [], trace = [], audio_ok = ok\<rparr>"

text \<open>Changing one session, adding to the trace, and testing where a session stands.\<close>

definition upd :: "nat \<Rightarrow> (session \<Rightarrow> session) \<Rightarrow> sys \<Rightarrow> sys" where
  "upd tid f s = s\<lparr>sessions := (sessions s)[tid := f (sessions s ! tid)]\<rparr>"

definition emit :: "action \<Rightarrow> sys \<Rightarrow> sys" where
  "emit a s = s\<lparr>trace := trace s @ [a]\<rparr>"

definition waiting :: "nat \<Rightarrow> pc \<Rightarrow> sys \<Rightarrow> bool" where
  "waiting tid p s = (tid < length (sessions s) \<and> pos (sessions s ! tid) = p)"

text \<open>\<open>sentences[i].replace(/[\[\]]/g, '')\<close>: the square brackets are taken out.\<close>

definition cleanText :: "js_string \<Rightarrow> js_string" where
  "cleanText s = filter (\<lambda>c. c \<noteq> 0x5B \<and> c \<noteq> 0x5D) s"

text \<open>The two lines after the loop, and the return.\<close>

definition finish :: "nat \<Rightarrow> sys \<Rightarrow> sys" where
  "finish tid s =
     upd tid (\<lambda>x. x\<lparr>pos := Returned\<rparr>) (s\<lparr>playbackState := Idle, currentSentenceIdx := - 1\<rparr>)"

text \<open>
  The loop from its test \<open>i < sentences.length\<close> to \<open>await generateSpeech\<close>: past the
  last sentence, or with the flag set (\<open>break\<close>), control leaves the loop.
\<close>

definition iterate :: "nat \<Rightarrow> nat \<Rightarrow> sys \<Rightarrow> sys" where
  "iterate tid i s =
     (let ss = sentences (sessions s ! tid) in
      if i < length ss \<and> \<not> stopPlaybackFlag s
      then upd tid (\<lambda>x. x\<lparr>cur := i, pos := AwaitSpeech\<rparr>)
             (emit (Fetch tid i (cleanText (ss ! i))) (s\<lparr>currentSentenceIdx := int i\<rparr>))
      else finish tid s)"

text \<open>\<open>const sentences = splitSentences(text)\<close> and the loop from \<open>i = 0\<close>.\<close>

definition begin_loop :: "nat \<Rightarrow> sys \<Rightarrow> sys" where
  "begin_loop tid s = iterate tid 0 (upd tid (\<lambda>x. x\<lparr>sentences := splitSentences (spoken x)\<rparr>) s)"

text \<open>
  \<open>handlePlayStory\<close> from \<open>setPlaybackState('playing')\<close> on: the flag is cleared, the
  context is made when there is none or it is closed, and resumed when it is
  suspended. A context that was just made is taken to be running. When the constructor
  throws, the call of \<open>handlePlayStory\<close> ends with that exception.
\<close>

definition start :: "nat \<Rightarrow> sys \<Rightarrow> sys" where
  "start tid s =
     (let s = s\<lparr>playbackState := Playing, stopPlaybackFlag := False, currentSentenceIdx := - 1\<rparr> in
      if audioCtx s = None \<or> audioCtx s = Some Closed
      then (if audio_ok s then begin_loop tid (s\<lparr>audioCtx := Some Running\<rparr>)
            else upd tid (\<lambda>x. x\<lparr>pos := Threw NotSupportedError\<rparr>) s)
      else if audioCtx s = Some Suspended
      then upd tid (\<lambda>x. x\<lparr>pos := AwaitResume\<rparr>) (s\<lparr>ctx_queue := ctx_queue s @ [PlayResumeK tid]\<rparr>)
      else begin_loop tid s)"

text \<open>
  \<open>handleStopPlayback\<close> up to its \<open>await\<close>, for the awaiting party \<open>k\<close>: the flag is
  set, and \<open>suspend()\<close> is called when there is a context. Without one the function
  returns at once; \<open>suspend()\<close> on a closed context is rejected. \<open>stop_settled\<close> is
  the rest of the function, after the \<open>await\<close>.
\<close>

datatype outcome = Pending | Fulfilled | Failed js_error

definition handleStopPlayback :: "cont \<Rightarrow> sys \<Rightarrow> sys \<times> outcome" where
  "handleStopPlayback k s =
     (let s = s\<lparr>stopPlaybackFlag := True\<rparr> in
      case audioCtx s of
        None \<Rightarrow> (s, Fulfilled)
      | Some c \<Rightarrow>
          if c = Closed then (s, Failed InvalidStateError)
          else (s\<lparr>ctx_queue := ctx_queue s @ [k]\<rparr>, Pending))"

definition stop_settled :: "sys \<Rightarrow> sys" where
  "stop_settled s = s\<lparr>playbackState := Idle, currentSentenceIdx := - 1\<rparr>"

text \<open>
  \<open>handlePausePlayback\<close> and \<open>handleResumePlayback\<close> up to their \<open>await\<close>; what
  follows it is in \<open>settle\<close>.
\<close>

definition handlePausePlayback :: "sys \<Rightarrow> sys" where
  "handlePausePlayback s =
     (if audioCtx s = Some Running then s\<lparr>ctx_queue := ctx_queue s @ [PauseK]\<rparr> else s)"

definition handleResumePlayback :: "sys \<Rightarrow> sys" where
  "handleResumePlayback s =
     (if audioCtx s = Some Suspended then s\<lparr>ctx_queue := ctx_queue s @ [ResumeK]\<rparr> else s)"

text \<open>
  \<open>handlePlayStory(text)\<close> up to its first \<open>await\<close>. The handler reads
  \<open>playbackState\<close> as the component last rendered it, taken here to be the current
  value.
\<close>

definition new_session :: "js_string \<Rightarrow> session" where
  "new_session txt = \<lparr>spoken = txt, sentences = [], cur = 0, pos = AwaitStop\<rparr>"

definition handlePlayStory :: "js_string \<Rightarrow> sys \<Rightarrow> sys" where
  "handlePlayStory txt s =
     (if playbackState s = Paused then handleResumePlayback s
      else
        let tid = length (sessions s);
            s = s\<lparr>sessions := sessions s @ [new_session txt]\<rparr>
        in if playbackState s = Playing
           then (case handleStopPlayback (PlayStopK tid) s of
                   (s, Pending) \<Rightarrow> s
                 | (s, Fulfilled) \<Rightarrow> upd tid (\<lambda>x. x\<lparr>pos := AwaitTimer\<rparr>) s
                 | (s, Failed e) \<Rightarrow> upd tid (\<lambda>x. x\<lparr>pos := Threw e\<rparr>) s)
           else start tid s)"

text \<open>
  A pending \<open>suspend()\<close> or \<open>resume()\<close> settles: the context changes its state and
  the awaiting code goes on.
\<close>

definition ctx_becomes :: "ctx_state \<Rightarrow> sys \<Rightarrow> sys" where
  "ctx_becomes c s = s\<lparr>audioCtx := map_option (\<lambda>_. c) (audioCtx s)\<rparr>"

fun settle :: "cont \<Rightarrow> sys \<Rightarrow> sys option" where
  "settle StopK s = Some (stop_settled (ctx_becomes Suspended s))"
| "settle PauseK s = Some ((ctx_becomes Suspended s)\<lparr>playbackState := Paused\<rparr>)"
| "settle ResumeK s = Some ((ctx_becomes Running s)\<lparr>playbackState := Playing\<rparr>)"
| "settle (PlayStopK tid) s =
     (if waiting tid AwaitStop s
      then Some (upd tid (\<lambda>x. x\<lparr>pos := AwaitTimer\<rparr>) (stop_settled (ctx_becomes Suspended s)))
      else None)"
| "settle (PlayResumeK tid) s =
     (if waiting tid AwaitResume s then Some (begin_loop tid (ctx_becomes Running s)) else None)"

text \<open>
  The loop body after \<open>await generateSpeech\<close>. A rejection goes to the \<open>catch\<close>,
  which logs it; the loop goes on with the next \<open>i\<close>. Else the flag is tested
  (\<open>break\<close>), then the audio (\<open>continue\<close>); an exception of \<open>decodeBase64\<close> goes to
  the \<open>catch\<close>; else \<open>decodeAudioData(bytes, audioCtxRef.current)\<close> runs, with its
  default rate 24000 and channel count 1, and its promise is awaited. The context was
  made at 24000 Hz, so its device supports that rate and one channel, and on every
  such device the call has the same outcome (lemma \<open>decode_same_device\<close>): it is
  computed here with \<open>standard_limits\<close>.
\<close>

definition on_speech :: "nat \<Rightarrow> speech \<Rightarrow> sys \<Rightarrow> sys" where
  "on_speech tid r s =
     (let i = cur (sessions s ! tid) in
      case r of
        Rejected \<Rightarrow> iterate tid (i + 1) (emit (LogError tid i) s)
      | NoAudio \<Rightarrow> if stopPlaybackFlag s then finish tid s else iterate tid (i + 1) s
      | Audio b \<Rightarrow>
          if stopPlaybackFlag s then finish tid s
          else (case b of
                  Inl e \<Rightarrow> iterate tid (i + 1) (emit (LogError tid i) s)
                | Inr bytes \<Rightarrow> upd tid (\<lambda>x. x\<lparr>pos := AwaitDecode (decodeAudioData bytes standard_limits 24000 1)\<rparr>) s))"

text \<open>
  After \<open>await decodeAudioData\<close>: a rejection goes to the \<open>catch\<close>. Else the promise
  executor runs: with the flag set or no context it resolves at once, else it starts
  the source and the promise waits for \<open>onended\<close>.
\<close>

definition on_decoded :: "nat \<Rightarrow> js_error + AudioBuffer \<Rightarrow> sys \<Rightarrow> sys" where
  "on_decoded tid res s =
     (let i = cur (sessions s ! tid) in
      case res of
        Inl e \<Rightarrow> iterate tid (i + 1) (emit (LogError tid i) s)
      | Inr buffer \<Rightarrow>
          if stopPlaybackFlag s \<or> audioCtx s = None then iterate tid (i + 1) s
          else upd tid (\<lambda>x. x\<lparr>pos := AwaitEnded\<rparr>) (emit (Start tid i) s))"

text \<open>\<open>onended\<close> resolves the promise and the loop goes on.\<close>

definition on_ended :: "nat \<Rightarrow> sys \<Rightarrow> sys" where
  "on_ended tid s = (let i = cur (sessions s ! tid) in iterate tid (i + 1) (emit (Ended tid i) s))"

text \<open>
  One step. An event that cannot happen in the state has no successor: a promise
  settles only for the session that awaits it, and a source ends only while the context
  is running, since a suspended context plays nothing.
\<close>

fun step :: "event \<Rightarrow> sys \<Rightarrow> sys option" where
  "step (Play txt) s = Some (handlePlayStory txt s)"
| "step Pause s = Some (handlePausePlayback s)"
| "step Resume s = Some (handleResumePlayback s)"
| "step Stop s = Some (fst (handleStopPlayback StopK s))"
| "step CtxDone s = (case ctx_queue s of [] \<Rightarrow> None | k # q \<Rightarrow> settle k (s\<lparr>ctx_queue := q\<rparr>))"
| "step (TimerFired tid) s = (if waiting tid AwaitTimer s then Some (start tid s) else None)"
| "step (SpeechResolved tid r) s =
     (if waiting tid AwaitSpeech s then Some (on_speech tid r s) else None)"
| "step (DecodeDone tid) s =
     (if tid < length (sessions s)
      then (case pos (sessions s ! tid) of AwaitDecode res \<Rightarrow> Some (on_decoded tid res s) | _ \<Rightarrow> None)
      else None)"
| "step (SourceEnded tid) s =
     (if waiting tid AwaitEnded s \<and> audioCtx s = Some Running then Some (on_ended tid s) else None)"

fun run :: "event list \<Rightarrow> sys \<Rightarrow> sys option" where
  "run [] s = Some s"
| "run (e # es) s = (case step e s of None \<Rightarrow> None | Some s' \<Rightarrow> run es s')"

text \<open>A payload of two samples, and what is observed of a state.\<close>

definition pcm :: "byte list" where "pcm = [0x00, 0x80, 0xFF, 0x7F]"

definition observe :: "sys option \<Rightarrow> (playback \<times> int \<times> ctx_state option \<times> bool \<times> pc list \<times> cont list \<times> action list) option" where
  "observe r = map_option (\<lambda>s. (playbackState s, currentSentenceIdx s, audioCtx s, stopPlaybackFlag s, map pos (sessions s), ctx_queue s, trace s)) r"



text \<open>
  \<open>moved_on tid i logged s s'\<close>: from \<open>s\<close> to \<open>s'\<close> session \<open>tid\<close> has left sentence
  \<open>i\<close> behind, having logged \<open>logged\<close>: it has requested the speech of sentence
  \<open>i + 1\<close> and \<open>playbackState\<close> is as before, or \<open>i\<close> was the last sentence and
  the session has returned, with \<open>playbackState\<close> idle and no current sentence.
\<close>

definition moved_on :: "nat \<Rightarrow> nat \<Rightarrow> action list \<Rightarrow> sys \<Rightarrow> sys \<Rightarrow> bool" where
  "moved_on tid i logged s s' =
     (let ss = sentences (sessions s ! tid) in
      length (sessions s') = length (sessions s)
      \<and> (if i + 1 < length ss
         then pos (sessions s' ! tid) = AwaitSpeech \<and> cur (sessions s' ! tid) = i + 1
              \<and> playbackState s' = playbackState s \<and> currentSentenceIdx s' = int (i + 1)
              \<and> trace s' = trace s @ logged @ [Fetch tid (i + 1) (cleanText (ss ! (i + 1)))]
         else pos (sessions s' ! tid) = Returned
              \<and> playbackState s' = Idle \<and> currentSentenceIdx s' = - 1
              \<and> trace s' = trace s @ logged))"

text \<open>The state after \<open>handlePlayStory("One. Two.")\<close> from the initial state.\<close>

definition example_playing :: sys where
  "example_playing = handlePlayStory (js ''One. Two.'') (initial True)"

text \<open>
  An undisturbed session: no handler is called and only the session's own promises
  settle. \<open>sentence_events tid r\<close> are the events of one sentence whose speech request
  settles with \<open>r\<close>: the request settles; a payload of bytes is decoded; a decoded buffer
  is played to its end. \<open>sentence_actions tid i r\<close> is what the session is then seen to
  do for sentence \<open>i\<close>, and \<open>remaining tid ss i rs\<close> what it is seen to do from
  sentence \<open>i\<close> on when the requests of sentences \<open>i\<close>, \<open>i + 1\<close>, ... of \<open>ss\<close> settle
  with \<open>rs\<close>: between two sentences, the request for the next one.
\<close>

fun sentence_events :: "nat \<Rightarrow> speech \<Rightarrow> event list" where
  "sentence_events tid (Audio (Inr bytes)) =
     (if isl (decodeAudioData bytes standard_limits 24000 1)
      then [SpeechResolved tid (Audio (Inr bytes)), DecodeDone tid]
      else [SpeechResolved tid (Audio (Inr bytes)), DecodeDone tid, SourceEnded tid])"
| "sentence_events tid r = [SpeechResolved tid r]"

fun sentence_actions :: "nat \<Rightarrow> nat \<Rightarrow> speech \<Rightarrow> action list" where
  "sentence_actions tid i NoAudio = []"
| "sentence_actions tid i Rejected = [LogError tid i]"
| "sentence_actions tid i (Audio (Inl e)) = [LogError tid i]"
| "sentence_actions tid i (Audio (Inr bytes)) =
     (if isl (decodeAudioData bytes standard_limits 24000 1) then [LogError tid i]
      else [Start tid i, Ended tid i])"

fun remaining :: "nat \<Rightarrow> js_string list \<Rightarrow> nat \<Rightarrow> speech list \<Rightarrow> action list" where
  "remaining tid ss i [] = []"
| "remaining tid ss i (r # rs) =
     sentence_actions tid i r
     @ (if rs = [] then []
        else Fetch tid (i + 1) (cleanText (ss ! (i + 1))) # remaining tid ss (i + 1) rs)"

text \<open>
  From \<open>s\<close> to \<open>s'\<close> the flag is still clear, the context is as it was and session
  \<open>tid\<close> has the same sentences.
\<close>

definition undisturbed :: "nat \<Rightarrow> sys \<Rightarrow> sys \<Rightarrow> bool" where
  "undisturbed tid s s' =
     (\<not> stopPlaybackFlag s' \<and> audioCtx s' = audioCtx s
      \<and> sentences (sessions s' ! tid) = sentences (sessions s ! tid))"

text \<open>The state after \<open>handlePlayStory("One. Two. Three.")\<close> from the initial state.\<close>

definition example_three :: sys where
  "example_three = handlePlayStory (js ''One. Two. Three.'') (initial True)"

lemmas ctl_defs = upd_def emit_def finish_def iterate_def waiting_def

lemma iterate_moved_on:
  assumes "tid < length (sessions s)" and "\<not> stopPlaybackFlag s"
    and "sentences (sessions s0 ! tid) = sentences (sessions s ! tid)"
    and "length (sessions s0) = length (sessions s)"
    and "playbackState s0 = playbackState s"
    and "trace s = trace s0 @ logged"
  shows "moved_on tid i logged s0 (iterate tid (i + 1) s)"
  using assms by (simp add: moved_on_def ctl_defs Let_def)

lemma on_speech_NoAudio:
  assumes "waiting tid AwaitSpeech s" and "\<not> stopPlaybackFlag s"
  shows "moved_on tid (cur (sessions s ! tid)) [] s (on_speech tid NoAudio s)"
proof -
  have "on_speech tid NoAudio s = iterate tid (cur (sessions s ! tid) + 1) s"
    using assms by (simp add: on_speech_def Let_def)
  moreover have "moved_on tid (cur (sessions s ! tid)) [] s (iterate tid (cur (sessions s ! tid) + 1) s)"
    by (rule iterate_moved_on) (use assms in \<open>simp_all add: waiting_def\<close>)
  ultimately show ?thesis by simp
qed

lemma emit_LogError_moved_on:
  assumes "waiting tid p s" and "\<not> stopPlaybackFlag s"
  shows "moved_on tid i [LogError tid j] s (iterate tid (i + 1) (emit (LogError tid j) s))"
proof (rule iterate_moved_on)
  show "tid < length (sessions (emit (LogError tid j) s))"
    using assms by (simp add: waiting_def emit_def)
  show "\<not> stopPlaybackFlag (emit (LogError tid j) s)"
    using assms by (simp add: emit_def)
  show "sentences (sessions s ! tid) = sentences (sessions (emit (LogError tid j) s) ! tid)"
    by (simp add: emit_def)
  show "length (sessions s) = length (sessions (emit (LogError tid j) s))"
    by (simp add: emit_def)
  show "playbackState s = playbackState (emit (LogError tid j) s)"
    by (simp add: emit_def)
  show "trace (emit (LogError tid j) s) = trace s @ [LogError tid j]"
    by (simp add: emit_def)
qed

lemma on_speech_Rejected:
  assumes "waiting tid AwaitSpeech s" and "\<not> stopPlaybackFlag s"
  shows "moved_on tid (cur (sessions s ! tid)) [LogError tid (cur (sessions s ! tid))] s
           (on_speech tid Rejected s)"
  using emit_LogError_moved_on [OF assms] by (simp add: on_speech_def Let_def)

lemma on_speech_atob_error:
  assumes "waiting tid AwaitSpeech s" and "\<not> stopPlaybackFlag s"
  shows "moved_on tid (cur (sessions s ! tid)) [LogError tid (cur (sessions s ! tid))] s
           (on_speech tid (Audio (Inl e)) s)"
  using emit_LogError_moved_on [OF assms] assms(2) by (simp add: on_speech_def Let_def)

lemma on_decoded_error:
  assumes "waiting tid (AwaitDecode (Inl e)) s" and "\<not> stopPlaybackFlag s"
  shows "moved_on tid (cur (sessions s ! tid)) [LogError tid (cur (sessions s ! tid))] s
           (on_decoded tid (Inl e) s)"
  using emit_LogError_moved_on [OF assms] by (simp add: on_decoded_def Let_def)

lemma moved_on_cong:
  assumes "moved_on tid i logged s1 s'"
    and "sentences (sessions s0 ! tid) = sentences (sessions s1 ! tid)"
    and "length (sessions s0) = length (sessions s1)"
    and "playbackState s0 = playbackState s1"
    and "trace s0 = trace s1"
  shows "moved_on tid i logged s0 s'"
  using assms by (simp add: moved_on_def Let_def)

lemma decode_error_run:
  assumes w: "waiting tid AwaitSpeech s" and f: "\<not> stopPlaybackFlag s"
    and d: "decodeAudioData bytes standard_limits 24000 1 = Inl e"
  shows "\<exists>s'. run [SpeechResolved tid (Audio (Inr bytes)), DecodeDone tid] s = Some s'
     \<and> moved_on tid (cur (sessions s ! tid)) [LogError tid (cur (sessions s ! tid))] s s'"
proof -
  let ?s1 = "upd tid (\<lambda>x. x\<lparr>pos := AwaitDecode (Inl e)\<rparr>) s"
  have s1: "step (SpeechResolved tid (Audio (Inr bytes))) s = Some ?s1"
    using w f d by (simp add: on_speech_def Let_def)
  have w1: "waiting tid (AwaitDecode (Inl e)) ?s1"
    using w by (simp add: waiting_def upd_def)
  have f1: "\<not> stopPlaybackFlag ?s1" using f by (simp add: upd_def)
  have s2: "step (DecodeDone tid) ?s1 = Some (on_decoded tid (Inl e) ?s1)"
    using w1 by (simp add: waiting_def)
  have c: "cur (sessions ?s1 ! tid) = cur (sessions s ! tid)"
    using w by (simp add: waiting_def upd_def)
  have "moved_on tid (cur (sessions s ! tid)) [LogError tid (cur (sessions s ! tid))] ?s1
      (on_decoded tid (Inl e) ?s1)"
    using on_decoded_error [OF w1 f1] c by simp
  then have "moved_on tid (cur (sessions s ! tid)) [LogError tid (cur (sessions s ! tid))] s
      (on_decoded tid (Inl e) ?s1)"
    by (rule moved_on_cong) (use w in \<open>simp_all add: waiting_def upd_def\<close>)
  then show ?thesis using s1 s2 by simp
qed


lemma run_append: "run (es @ fs) s = (case run es s of None \<Rightarrow> None | Some s' \<Rightarrow> run fs s')"
  by (induction es arbitrary: s) (auto split: option.splits)

lemma iterate_undisturbed:
  assumes "tid < length (sessions s)" and "\<not> stopPlaybackFlag s"
  shows "undisturbed tid s (iterate tid j s)"
  using assms by (simp add: undisturbed_def ctl_defs Let_def)

lemma played_run:
  assumes w: "waiting tid AwaitSpeech s" and f: "\<not> stopPlaybackFlag s"
    and c: "audioCtx s = Some Running"
    and d: "decodeAudioData bytes standard_limits 24000 1 = Inr b"
  shows "\<exists>s'. run [SpeechResolved tid (Audio (Inr bytes)), DecodeDone tid, SourceEnded tid] s = Some s'
     \<and> moved_on tid (cur (sessions s ! tid))
         [Start tid (cur (sessions s ! tid)), Ended tid (cur (sessions s ! tid))] s s'
     \<and> undisturbed tid s s'"
proof -
  let ?i = "cur (sessions s ! tid)"
  let ?s1 = "upd tid (\<lambda>x. x\<lparr>pos := AwaitDecode (Inr b)\<rparr>) s"
  let ?s2 = "upd tid (\<lambda>x. x\<lparr>pos := AwaitEnded\<rparr>) (emit (Start tid ?i) ?s1)"
  let ?s3 = "emit (Ended tid ?i) ?s2"
  have s1: "step (SpeechResolved tid (Audio (Inr bytes))) s = Some ?s1"
    using w f d by (simp add: on_speech_def Let_def)
  have s2: "step (DecodeDone tid) ?s1 = Some ?s2"
    using w f c by (simp add: waiting_def upd_def on_decoded_def Let_def emit_def)
  have s3: "step (SourceEnded tid) ?s2 = Some (iterate tid (?i + 1) ?s3)"
    using w f c by (simp add: waiting_def upd_def on_ended_def Let_def emit_def)
  have m: "moved_on tid ?i [Start tid ?i, Ended tid ?i] s (iterate tid (?i + 1) ?s3)"
    by (rule iterate_moved_on) (use w f in \<open>simp_all add: waiting_def upd_def emit_def\<close>)
  have u: "undisturbed tid ?s3 (iterate tid (?i + 1) ?s3)"
    by (rule iterate_undisturbed) (use w f in \<open>simp_all add: waiting_def upd_def emit_def\<close>)
  have u': "undisturbed tid s (iterate tid (?i + 1) ?s3)"
    using u w by (simp add: undisturbed_def waiting_def upd_def emit_def)
  show ?thesis using s1 s2 s3 m u' by simp
qed


lemma skipped_run:
  assumes w: "waiting tid AwaitSpeech s" and f: "\<not> stopPlaybackFlag s"
  shows "\<exists>s'. run [SpeechResolved tid NoAudio] s = Some s'
     \<and> moved_on tid (cur (sessions s ! tid)) [] s s' \<and> undisturbed tid s s'"
proof -
  let ?i = "cur (sessions s ! tid)"
  have s1: "step (SpeechResolved tid NoAudio) s = Some (iterate tid (?i + 1) s)"
    using w f by (simp add: on_speech_def Let_def)
  have m: "moved_on tid ?i [] s (iterate tid (?i + 1) s)"
    by (rule iterate_moved_on) (use w f in \<open>simp_all add: waiting_def\<close>)
  have u: "undisturbed tid s (iterate tid (?i + 1) s)"
    by (rule iterate_undisturbed) (use w f in \<open>simp_all add: waiting_def\<close>)
  show ?thesis using s1 m u by simp
qed

lemma logged_undisturbed:
  assumes w: "waiting tid p s" and f: "\<not> stopPlaybackFlag s"
  shows "undisturbed tid s (iterate tid j (emit (LogError tid i) s))"
proof -
  have "undisturbed tid (emit (LogError tid i) s) (iterate tid j (emit (LogError tid i) s))"
    by (rule iterate_undisturbed) (use w f in \<open>simp_all add: waiting_def emit_def\<close>)
  then show ?thesis by (simp add: undisturbed_def emit_def)
qed

lemma failed_run:
  assumes w: "waiting tid AwaitSpeech s" and f: "\<not> stopPlaybackFlag s"
    and r: "r = Rejected \<or> r = Audio (Inl e)"
  shows "\<exists>s'. run [SpeechResolved tid r] s = Some s'
     \<and> moved_on tid (cur (sessions s ! tid)) [LogError tid (cur (sessions s ! tid))] s s'
     \<and> undisturbed tid s s'"
proof -
  let ?i = "cur (sessions s ! tid)"
  let ?s' = "iterate tid (?i + 1) (emit (LogError tid ?i) s)"
  have s1: "step (SpeechResolved tid r) s = Some ?s'"
    using w f r by (auto simp add: on_speech_def Let_def)
  have m: "moved_on tid ?i [LogError tid ?i] s ?s'"
    by (rule emit_LogError_moved_on [OF w f])
  have u: "undisturbed tid s ?s'"
    by (rule logged_undisturbed [OF w f])
  show ?thesis using s1 m u by simp
qed

lemma undecoded_run:
  assumes w: "waiting tid AwaitSpeech s" and f: "\<not> stopPlaybackFlag s"
    and d: "decodeAudioData bytes standard_limits 24000 1 = Inl e"
  shows "\<exists>s'. run [SpeechResolved tid (Audio (Inr bytes)), DecodeDone tid] s = Some s'
     \<and> moved_on tid (cur (sessions s ! tid)) [LogError tid (cur (sessions s ! tid))] s s'
     \<and> undisturbed tid s s'"
proof -
  let ?i = "cur (sessions s ! tid)"
  let ?s1 = "upd tid (\<lambda>x. x\<lparr>pos := AwaitDecode (Inl e)\<rparr>) s"
  let ?s' = "iterate tid (?i + 1) (emit (LogError tid ?i) ?s1)"
  have s1: "step (SpeechResolved tid (Audio (Inr bytes))) s = Some ?s1"
    using w f d by (simp add: on_speech_def Let_def)
  have w1: "waiting tid (AwaitDecode (Inl e)) ?s1"
    using w by (simp add: waiting_def upd_def)
  have f1: "\<not> stopPlaybackFlag ?s1" using f by (simp add: upd_def)
  have c: "cur (sessions ?s1 ! tid) = ?i"
    using w by (simp add: waiting_def upd_def)
  have s2: "step (DecodeDone tid) ?s1 = Some ?s'"
    using w1 c by (simp add: waiting_def on_decoded_def Let_def)
  have "moved_on tid ?i [LogError tid ?i] ?s1 ?s'"
    by (rule emit_LogError_moved_on [OF w1 f1])
  then have m: "moved_on tid ?i [LogError tid ?i] s ?s'"
    by (rule moved_on_cong) (use w in \<open>simp_all add: waiting_def upd_def\<close>)
  have "undisturbed tid ?s1 ?s'"
    by (rule logged_undisturbed [OF w1 f1])
  then have u: "undisturbed tid s ?s'"
    using w by (simp add: undisturbed_def waiting_def upd_def)
  show ?thesis using s1 s2 m u by simp
qed

lemma sentence_run:
  assumes w: "waiting tid AwaitSpeech s" and f: "\<not> stopPlaybackFlag s"
    and c: "audioCtx s = Some Running"
  shows "\<exists>s'. run (sentence_events tid r) s = Some s'
     \<and> moved_on tid (cur (sessions s ! tid)) (sentence_actions tid (cur (sessions s ! tid)) r) s s'
     \<and> undisturbed tid s s'"
proof (cases r)
  case Rejected
  then show ?thesis using failed_run [OF w f, of r] by simp
next
  case NoAudio
  then show ?thesis using skipped_run [OF w f] by simp
next
  case (Audio b)
  show ?thesis
  proof (cases b)
    case (Inl e)
    then show ?thesis using Audio failed_run [OF w f, of r e] by simp
  next
    case (Inr bytes)
    show ?thesis
    proof (cases "decodeAudioData bytes standard_limits 24000 1")
      case (Inl e)
      then show ?thesis using Audio Inr undecoded_run [OF w f Inl] by simp
    next
      case buf: (Inr buffer)
      then show ?thesis using Audio Inr played_run [OF w f c buf] by simp
    qed
  qed
qed

lemma session_completes:
  assumes "waiting tid AwaitSpeech s" and "\<not> stopPlaybackFlag s"
    and "audioCtx s = Some Running" and "rs \<noteq> []"
    and "cur (sessions s ! tid) + length rs = length (sentences (sessions s ! tid))"
  shows "\<exists>s'. run (concat (map (sentence_events tid) rs)) s = Some s'
     \<and> pos (sessions s' ! tid) = Returned
     \<and> playbackState s' = Idle \<and> currentSentenceIdx s' = - 1
     \<and> trace s' = trace s @ remaining tid (sentences (sessions s ! tid)) (cur (sessions s ! tid)) rs"
  using assms
proof (induction rs arbitrary: s)
  case Nil
  then show ?case by simp
next
  case (Cons r rs)
  let ?i = "cur (sessions s ! tid)"
  let ?ss = "sentences (sessions s ! tid)"
  from sentence_run [OF Cons.prems(1,2,3), of r]
  obtain s1 where r1: "run (sentence_events tid r) s = Some s1"
    and m: "moved_on tid ?i (sentence_actions tid ?i r) s s1"
    and u: "undisturbed tid s s1"
    by blast
  show ?case
  proof (cases "rs = []")
    case True
    then have "\<not> ?i + 1 < length ?ss" using Cons.prems(5) by simp
    then have "pos (sessions s1 ! tid) = Returned \<and> playbackState s1 = Idle
        \<and> currentSentenceIdx s1 = - 1 \<and> trace s1 = trace s @ sentence_actions tid ?i r"
      using m by (simp add: moved_on_def Let_def)
    then show ?thesis using True r1 by simp
  next
    case False
    then have lt: "?i + 1 < length ?ss" using Cons.prems(5) by (cases rs) simp_all
    then have n: "length (sessions s1) = length (sessions s)"
      and p: "pos (sessions s1 ! tid) = AwaitSpeech" and c1: "cur (sessions s1 ! tid) = ?i + 1"
      and t1: "trace s1 = trace s @ sentence_actions tid ?i r @ [Fetch tid (?i + 1) (cleanText (?ss ! (?i + 1)))]"
      using m by (simp_all add: moved_on_def Let_def)
    have w1: "waiting tid AwaitSpeech s1"
      using Cons.prems(1) n p by (simp add: waiting_def)
    have f1: "\<not> stopPlaybackFlag s1" and a1: "audioCtx s1 = Some Running"
      and ss1: "sentences (sessions s1 ! tid) = ?ss"
      using u Cons.prems(3) by (simp_all add: undisturbed_def)
    have l1: "cur (sessions s1 ! tid) + length rs = length (sentences (sessions s1 ! tid))"
      using c1 ss1 Cons.prems(5) by simp
    from Cons.IH [OF w1 f1 a1 False l1]
    obtain s' where r2: "run (concat (map (sentence_events tid) rs)) s1 = Some s'"
      and e: "pos (sessions s' ! tid) = Returned" "playbackState s' = Idle"
        "currentSentenceIdx s' = - 1"
      and t2: "trace s' = trace s1 @ remaining tid (sentences (sessions s1 ! tid)) (cur (sessions s1 ! tid)) rs"
      by blast
    have "run (concat (map (sentence_events tid) (r # rs))) s = Some s'"
      using r1 r2 by (simp add: run_append)
    moreover have "trace s' = trace s @ remaining tid ?ss ?i (r # rs)"
      using t1 t2 c1 ss1 False by simp
    ultimately show ?thesis using e by blast
  qed
qed

lemma example_three_waiting: "waiting 0 AwaitSpeech example_three"
  by code_simp

lemma example_three_flag: "\<not> stopPlaybackFlag example_three"
  by code_simp

lemma example_three_context: "audioCtx example_three = Some Running"
  by code_simp

lemma example_three_sentences:
  "cur (sessions example_three ! 0) + length [NoAudio, Audio (Inr pcm), Rejected]
     = length (sentences (sessions example_three ! 0))"
  by code_simp

lemma example_playing_waiting: "waiting 0 AwaitSpeech example_playing"
  by code_simp


text \<open>
  C9. When the device context cannot be made, the status should never become
  \<open>playing\<close> and the failure should be reported once. In the code
  \<open>setPlaybackState('playing')\<close> comes before the constructor: the call ends with the
  exception, nothing is logged, and the status is and stays \<open>playing\<close>, also after
  \<open>handleStopPlayback\<close>, which resets it only when there is a context.
\<close>

theorem C9_status_stuck_playing:
  "observe (run [Play (js ''One. Two.'')] (initial False))
     = Some (Playing, - 1, None, False, [Threw NotSupportedError], [], [])
   \<and> observe (run [Play (js ''One. Two.''), Stop] (initial False))
     = Some (Playing, - 1, None, True, [Threw NotSupportedError], [], [])"
  by code_simp

text \<open>
  C1. A call of \<open>handlePlayStory\<close> while the status is \<open>playing\<close> should tear the
  active session down before the new one requests its first sentence. In the code the
  new call stops, waits and then clears the one flag that both sessions read: a speech
  request of the old session that settles after that is not discarded. Here the old
  session starts its audio after the new session has requested its speech, and both
  are active on the one context.
\<close>

theorem C1_old_session_survives:
  "observe (run [Play (js ''One. Two.''), Play (js ''cat''), CtxDone, TimerFired 1, CtxDone,
                 SpeechResolved 0 (Audio (Inr pcm)), DecodeDone 0] (initial True))
     = Some (Playing, 0, Some Running, False, [AwaitEnded, AwaitSpeech], [],
             [Fetch 0 0 (js ''One.''), Fetch 1 0 (js ''cat''), Start 0 0])"
  by code_simp

text \<open>
  C8. For a session that awaits the speech of sentence \<open>i\<close> and is not cancelled: when
  the speech call gives no audio, the session goes on to sentence \<open>i + 1\<close> at once,
  with nothing decoded, started or logged; when the call is rejected, when the payload
  is no base64, or when decoding fails, the error is logged and the session goes on to
  sentence \<open>i + 1\<close> likewise; when the payload is decoded and the context is running,
  the audio is started and, when it has ended, the session goes on to sentence
  \<open>i + 1\<close>. After the last sentence the session returns with the status idle. So an
  undisturbed session on a running context, whatever its remaining speech requests
  give, goes through all its remaining sentences and returns, with the status idle and
  no current sentence: it has requested each remaining sentence in turn, played each
  decoded payload to its end, and logged each failure.
\<close>

theorem C8_missing_audio_is_skipped:
  assumes "waiting tid AwaitSpeech s" and "\<not> stopPlaybackFlag s"
  shows "(\<exists>s'. step (SpeechResolved tid NoAudio) s = Some s'
            \<and> moved_on tid (cur (sessions s ! tid)) [] s s')
    \<and> (\<exists>s'. step (SpeechResolved tid Rejected) s = Some s'
            \<and> moved_on tid (cur (sessions s ! tid)) [LogError tid (cur (sessions s ! tid))] s s')
    \<and> (\<forall>e. \<exists>s'. step (SpeechResolved tid (Audio (Inl e))) s = Some s'
            \<and> moved_on tid (cur (sessions s ! tid)) [LogError tid (cur (sessions s ! tid))] s s')
    \<and> (\<forall>bytes. isl (decodeAudioData bytes standard_limits 24000 1) \<longrightarrow>
          (\<exists>s'. run [SpeechResolved tid (Audio (Inr bytes)), DecodeDone tid] s = Some s'
            \<and> moved_on tid (cur (sessions s ! tid)) [LogError tid (cur (sessions s ! tid))] s s'))
    \<and> (\<forall>bytes. audioCtx s = Some Running
          \<and> \<not> isl (decodeAudioData bytes standard_limits 24000 1) \<longrightarrow>
          (\<exists>s'. run [SpeechResolved tid (Audio (Inr bytes)), DecodeDone tid, SourceEnded tid] s
                  = Some s'
            \<and> moved_on tid (cur (sessions s ! tid))
                [Start tid (cur (sessions s ! tid)), Ended tid (cur (sessions s ! tid))] s s'))
    \<and> (\<forall>rs. audioCtx s = Some Running \<and> rs \<noteq> []
          \<and> cur (sessions s ! tid) + length rs = length (sentences (sessions s ! tid)) \<longrightarrow>
          (\<exists>s'. run (concat (map (sentence_events tid) rs)) s = Some s'
            \<and> pos (sessions s' ! tid) = Returned
            \<and> playbackState s' = Idle \<and> currentSentenceIdx s' = - 1
            \<and> trace s' = trace s @ remaining tid (sentences (sessions s ! tid))
                                      (cur (sessions s ! tid)) rs))"
proof -
  have a: "\<exists>s'. step (SpeechResolved tid NoAudio) s = Some s'
      \<and> moved_on tid (cur (sessions s ! tid)) [] s s'"
    using assms on_speech_NoAudio [OF assms] by simp
  have b: "\<exists>s'. step (SpeechResolved tid Rejected) s = Some s'
      \<and> moved_on tid (cur (sessions s ! tid)) [LogError tid (cur (sessions s ! tid))] s s'"
    using assms on_speech_Rejected [OF assms] by simp
  have c: "\<forall>e. \<exists>s'. step (SpeechResolved tid (Audio (Inl e))) s = Some s'
      \<and> moved_on tid (cur (sessions s ! tid)) [LogError tid (cur (sessions s ! tid))] s s'"
    using assms on_speech_atob_error [OF assms] by simp
  have d: "\<forall>bytes. isl (decodeAudioData bytes standard_limits 24000 1) \<longrightarrow>
          (\<exists>s'. run [SpeechResolved tid (Audio (Inr bytes)), DecodeDone tid] s = Some s'
            \<and> moved_on tid (cur (sessions s ! tid)) [LogError tid (cur (sessions s ! tid))] s s')"
  proof (intro allI impI)
    fix bytes
    assume "isl (decodeAudioData bytes standard_limits 24000 1)"
    then obtain e where "decodeAudioData bytes standard_limits 24000 1 = Inl e"
      by (cases "decodeAudioData bytes standard_limits 24000 1") auto
    then show "\<exists>s'. run [SpeechResolved tid (Audio (Inr bytes)), DecodeDone tid] s = Some s'
        \<and> moved_on tid (cur (sessions s ! tid)) [LogError tid (cur (sessions s ! tid))] s s'"
      using decode_error_run [OF assms] by blast
  qed
  have e: "\<forall>bytes. audioCtx s = Some Running
          \<and> \<not> isl (decodeAudioData bytes standard_limits 24000 1) \<longrightarrow>
          (\<exists>s'. run [SpeechResolved tid (Audio (Inr bytes)), DecodeDone tid, SourceEnded tid] s
                  = Some s'
            \<and> moved_on tid (cur (sessions s ! tid))
                [Start tid (cur (sessions s ! tid)), Ended tid (cur (sessions s ! tid))] s s')"
  proof (intro allI impI)
    fix bytes
    assume h: "audioCtx s = Some Running
        \<and> \<not> isl (decodeAudioData bytes standard_limits 24000 1)"
    then obtain buffer where "decodeAudioData bytes standard_limits 24000 1 = Inr buffer"
      by (cases "decodeAudioData bytes standard_limits 24000 1") auto
    with h show "\<exists>s'. run [SpeechResolved tid (Audio (Inr bytes)), DecodeDone tid, SourceEnded tid] s
                  = Some s'
            \<and> moved_on tid (cur (sessions s ! tid))
                [Start tid (cur (sessions s ! tid)), Ended tid (cur (sessions s ! tid))] s s'"
      using played_run [OF assms, of bytes buffer] by blast
  qed
  have f: "\<forall>rs. audioCtx s = Some Running \<and> rs \<noteq> []
          \<and> cur (sessions s ! tid) + length rs = length (sentences (sessions s ! tid)) \<longrightarrow>
          (\<exists>s'. run (concat (map (sentence_events tid) rs)) s = Some s'
            \<and> pos (sessions s' ! tid) = Returned
            \<and> playbackState s' = Idle \<and> currentSentenceIdx s' = - 1
            \<and> trace s' = trace s @ remaining tid (sentences (sessions s ! tid))
                                      (cur (sessions s ! tid)) rs)"
    using session_completes [OF assms] by blast
  show ?thesis using a b c d e f by (intro conjI) assumption+
qed

theorem C8_missing_audio_is_skipped_witness:
  "waiting 0 AwaitSpeech example_three \<and> \<not> stopPlaybackFlag example_three
   \<and> audioCtx example_three = Some Running
   \<and> cur (sessions example_three ! 0) + length [NoAudio, Audio (Inr pcm), Rejected]
       = length (sentences (sessions example_three ! 0))
   \<and> (\<exists>s'. step (SpeechResolved 0 NoAudio) example_three = Some s'
          \<and> moved_on 0 (cur (sessions example_three ! 0)) [] example_three s')
   \<and> (\<exists>s'. run (concat (map (sentence_events 0) [NoAudio, Audio (Inr pcm), Rejected]))
               example_three = Some s'
          \<and> pos (sessions s' ! 0) = Returned
          \<and> playbackState s' = Idle \<and> currentSentenceIdx s' = - 1
          \<and> trace s' = trace example_three
               @ remaining 0 (sentences (sessions example_three ! 0))
                   (cur (sessions example_three ! 0)) [NoAudio, Audio (Inr pcm), Rejected])
   \<and> observe (run [Play (js ''One. Two. Three.''), SpeechResolved 0 NoAudio,
                   SpeechResolved 0 (Audio (Inr pcm)), DecodeDone 0, SourceEnded 0,
                   SpeechResolved 0 Rejected] (initial True))
       = Some (Idle, - 1, Some Running, False, [Returned], [],
               [Fetch 0 0 (js ''One.''), Fetch 0 1 (js ''Two.''), Start 0 1, Ended 0 1,
                Fetch 0 2 (js ''Three.''), LogError 0 2])
   \<and> observe (run [Play (js ''One. Two.''), SpeechResolved 0 NoAudio,
                   SpeechResolved 0 (Audio (Inr pcm)), DecodeDone 0, SourceEnded 0] (initial True))
       = Some (Idle, - 1, Some Running, False, [Returned], [],
               [Fetch 0 0 (js ''One.''), Fetch 0 1 (js ''Two.''), Start 0 1, Ended 0 1])"
proof -
  note k = C8_missing_audio_is_skipped [OF example_three_waiting example_three_flag]
  have n: "[NoAudio, Audio (Inr pcm), Rejected] \<noteq> []" by simp
  have x: "\<exists>s'. step (SpeechResolved 0 NoAudio) example_three = Some s'
          \<and> moved_on 0 (cur (sessions example_three ! 0)) [] example_three s'"
    by (rule k [THEN conjunct1])
  have y: "\<exists>s'. run (concat (map (sentence_events 0) [NoAudio, Audio (Inr pcm), Rejected]))
               example_three = Some s'
          \<and> pos (sessions s' ! 0) = Returned
          \<and> playbackState s' = Idle \<and> currentSentenceIdx s' = - 1
          \<and> trace s' = trace example_three
               @ remaining 0 (sentences (sessions example_three ! 0))
                   (cur (sessions example_three ! 0)) [NoAudio, Audio (Inr pcm), Rejected]"
    by (rule k [THEN conjunct2, THEN conjunct2, THEN conjunct2, THEN conjunct2, THEN conjunct2,
          THEN spec, THEN mp])
      (intro conjI example_three_context n example_three_sentences)
  have r: "observe (run [Play (js ''One. Two. Three.''), SpeechResolved 0 NoAudio,
                   SpeechResolved 0 (Audio (Inr pcm)), DecodeDone 0, SourceEnded 0,
                   SpeechResolved 0 Rejected] (initial True))
       = Some (Idle, - 1, Some Running, False, [Returned], [],
               [Fetch 0 0 (js ''One.''), Fetch 0 1 (js ''Two.''), Start 0 1, Ended 0 1,
                Fetch 0 2 (js ''Three.''), LogError 0 2])"
    by code_simp
  have q: "observe (run [Play (js ''One. Two.''), SpeechResolved 0 NoAudio,
                   SpeechResolved 0 (Audio (Inr pcm)), DecodeDone 0, SourceEnded 0] (initial True))
       = Some (Idle, - 1, Some Running, False, [Returned], [],
               [Fetch 0 0 (js ''One.''), Fetch 0 1 (js ''Two.''), Start 0 1, Ended 0 1])"
    by code_simp
  show ?thesis
    using example_three_waiting example_three_flag example_three_context
      example_three_sentences x y r q
    by - (intro conjI, assumption+)
qed





subsection \<open>The order of the sentences\<close>

text \<open>
  The order of a session's actions, as an automaton over its trace. A session starts
  by requesting sentence 0. After the request of sentence \<open>i\<close> it starts the audio of
  \<open>i\<close>, logs an error for \<open>i\<close>, or requests sentence \<open>i + 1\<close> (when \<open>i\<close> gave no
  audio). While the audio of \<open>i\<close> plays, the only next action is its end. After the end
  or the error of \<open>i\<close> comes the request of \<open>i + 1\<close>. Every request carries the
  sentence of its index, cleaned.
\<close>

datatype phase = NotStarted | Fetching nat | SourcePlaying nat | Completed nat

fun owner :: "action \<Rightarrow> nat" where
  "owner (Fetch tid i t) = tid"
| "owner (Start tid i) = tid"
| "owner (Ended tid i) = tid"
| "owner (LogError tid i) = tid"

fun follows :: "js_string list \<Rightarrow> phase \<Rightarrow> action \<Rightarrow> phase option" where
  "follows ss NotStarted (Fetch tid j t) =
     (if j = 0 \<and> j < length ss \<and> t = cleanText (ss ! j) then Some (Fetching j) else None)"
| "follows ss (Fetching i) (Fetch tid j t) =
     (if j = i + 1 \<and> j < length ss \<and> t = cleanText (ss ! j) then Some (Fetching j) else None)"
| "follows ss (Completed i) (Fetch tid j t) =
     (if j = i + 1 \<and> j < length ss \<and> t = cleanText (ss ! j) then Some (Fetching j) else None)"
| "follows ss (Fetching i) (Start tid j) = (if j = i then Some (SourcePlaying i) else None)"
| "follows ss (Fetching i) (LogError tid j) = (if j = i then Some (Completed i) else None)"
| "follows ss (SourcePlaying i) (Ended tid j) = (if j = i then Some (Completed i) else None)"
| "follows ss p a = None"

fun phase_after :: "js_string list \<Rightarrow> phase option \<Rightarrow> action list \<Rightarrow> phase option" where
  "phase_after ss p [] = p"
| "phase_after ss p (a # as) =
     phase_after ss (case p of None \<Rightarrow> None | Some q \<Rightarrow> follows ss q a) as"

text \<open>The actions of one session, and the traces the automaton accepts.\<close>

definition session_trace :: "nat \<Rightarrow> action list \<Rightarrow> action list" where
  "session_trace tid tr = filter (\<lambda>a. owner a = tid) tr"

definition in_order :: "js_string list \<Rightarrow> action list \<Rightarrow> bool" where
  "in_order ss tr = (phase_after ss (Some NotStarted) tr \<noteq> None)"

text \<open>
  The invariant: every action belongs to a session, and each session stands where the
  automaton stands after the session's trace.
\<close>

definition ph :: "nat \<Rightarrow> sys \<Rightarrow> phase option" where
  "ph tid s = phase_after (splitSentences (spoken (sessions s ! tid))) (Some NotStarted)
     (session_trace tid (trace s))"

definition agrees :: "session \<Rightarrow> phase option \<Rightarrow> bool" where
  "agrees x p =
     (case pos x of
        AwaitStop \<Rightarrow> p = Some NotStarted
      | AwaitTimer \<Rightarrow> p = Some NotStarted
      | AwaitResume \<Rightarrow> p = Some NotStarted
      | AwaitSpeech \<Rightarrow> p = Some (Fetching (cur x)) \<and> sentences x = splitSentences (spoken x)
      | AwaitDecode r \<Rightarrow> p = Some (Fetching (cur x)) \<and> sentences x = splitSentences (spoken x)
      | AwaitEnded \<Rightarrow> p = Some (SourcePlaying (cur x)) \<and> sentences x = splitSentences (spoken x)
      | Returned \<Rightarrow> p \<noteq> None
      | Threw e \<Rightarrow> p \<noteq> None)"

definition ordered :: "sys \<Rightarrow> bool" where
  "ordered s =
     ((\<forall>a \<in> set (trace s). owner a < length (sessions s))
      \<and> (\<forall>tid < length (sessions s). agrees (sessions s ! tid) (ph tid s)))"

text \<open>A state in which the audio of the last sentence is playing.\<close>

definition example_last :: sys where
  "example_last =
     \<lparr>playbackState = Playing, currentSentenceIdx = 1, audioCtx = Some Running,
      stopPlaybackFlag = False,
      sessions = [\<lparr>spoken = js ''One. Two.'', sentences = [js ''One.'', js ''Two.''], cur = 1,
                   pos = AwaitEnded\<rparr>],
      ctx_queue = [],
      trace = [Fetch 0 0 (js ''One.''), Start 0 0, Ended 0 0, Fetch 0 1 (js ''Two.''), Start 0 1],
      audio_ok = True\<rparr>"

lemma phase_after_append:
  "phase_after ss p (xs @ ys) = phase_after ss (phase_after ss p xs) ys"
  by (induction xs arbitrary: p) simp_all

lemma session_trace_append:
  "session_trace tid (xs @ ys) = session_trace tid xs @ session_trace tid ys"
  by (simp add: session_trace_def)

lemma session_trace_own: "\<forall>a \<in> set as. owner a = tid \<Longrightarrow> session_trace tid as = as"
  by (simp add: session_trace_def)

lemma session_trace_other:
  "\<forall>a \<in> set as. owner a = tid \<Longrightarrow> tid' \<noteq> tid \<Longrightarrow> session_trace tid' as = []"
  by (auto simp: session_trace_def filter_empty_conv)

lemma ordered_local:
  assumes inv: "ordered s" and tid: "tid < length (sessions s)"
    and ss: "sessions s' = (sessions s)[tid := x']"
    and sp: "spoken x' = spoken (sessions s ! tid)"
    and tr: "trace s' = trace s @ as"
    and own: "\<forall>a \<in> set as. owner a = tid"
    and ag: "agrees x' (phase_after (splitSentences (spoken x')) (ph tid s) as)"
  shows "ordered s'"
proof -
  have len: "length (sessions s') = length (sessions s)" using ss by simp
  have a: "\<forall>a \<in> set (trace s'). owner a < length (sessions s')"
    using inv tid own by (auto simp: ordered_def tr len)
  have b: "agrees (sessions s' ! u) (ph u s')" if u: "u < length (sessions s')" for u
  proof (cases "u = tid")
    case True
    have "ph tid s' = phase_after (splitSentences (spoken x')) (ph tid s) as"
      using tid by (simp add: ph_def ss sp tr session_trace_append session_trace_own [OF own]
          phase_after_append)
    then show ?thesis using ag True tid by (simp add: ss)
  next
    case False
    have "ph u s' = ph u s"
      using False by (simp add: ph_def ss tr session_trace_append session_trace_other [OF own])
    moreover have "sessions s' ! u = sessions s ! u" using False by (simp add: ss)
    moreover have "agrees (sessions s ! u) (ph u s)"
      using inv u len by (simp add: ordered_def)
    ultimately show ?thesis by simp
  qed
  show ?thesis using a b by (simp add: ordered_def)
qed

lemma ordered_globals:
  assumes "ordered s" and "sessions s' = sessions s" and "trace s' = trace s"
  shows "ordered s'"
  using assms by (simp add: ordered_def ph_def)

lemma ordered_new_session:
  assumes inv: "ordered s" and ss: "sessions s' = sessions s @ [x]" and tr: "trace s' = trace s"
    and p: "pos x = AwaitStop \<or> pos x = AwaitTimer \<or> pos x = AwaitResume"
  shows "ordered s'"
proof -
  have a: "\<forall>a \<in> set (trace s'). owner a < length (sessions s')"
    using inv by (auto simp: ordered_def tr ss)
  have none: "session_trace (length (sessions s)) (trace s) = []"
    using inv by (auto simp: ordered_def session_trace_def filter_empty_conv)
  have b: "agrees (sessions s' ! u) (ph u s')" if u: "u < length (sessions s')" for u
  proof (cases "u < length (sessions s)")
    case True
    then have "sessions s' ! u = sessions s ! u" by (simp add: ss nth_append)
    moreover from this have "ph u s' = ph u s" by (simp add: ph_def tr)
    ultimately show ?thesis using inv True by (simp add: ordered_def)
  next
    case False
    then have e: "u = length (sessions s)" using u by (simp add: ss)
    then have "sessions s' ! u = x" by (simp add: ss)
    moreover have "ph u s' = Some NotStarted" by (simp add: ph_def tr e none)
    ultimately show ?thesis using p by (auto simp: agrees_def)
  qed
  show ?thesis using a b by (simp add: ordered_def)
qed

lemma ordered_initial: "ordered (initial ok)"
  by (simp add: ordered_def initial_def)


lemma ordered_finish:
  assumes inv: "ordered s" and tid: "tid < length (sessions s)"
    and ss1: "sessions s1 = (sessions s)[tid := x1]"
    and sp: "spoken x1 = spoken (sessions s ! tid)"
    and tr: "trace s1 = trace s @ as" and own: "\<forall>a \<in> set as. owner a = tid"
    and q: "phase_after (splitSentences (spoken x1)) (ph tid s) as \<noteq> None"
  shows "ordered (finish tid s1)"
proof (rule ordered_local [OF inv tid _ _ _ own])
  show "sessions (finish tid s1) = (sessions s)[tid := x1\<lparr>pos := Returned\<rparr>]"
    using tid by (simp add: finish_def upd_def ss1)
  show "spoken (x1\<lparr>pos := Returned\<rparr>) = spoken (sessions s ! tid)"
    using sp by simp
  show "trace (finish tid s1) = trace s @ as"
    by (simp add: finish_def upd_def tr)
  show "agrees (x1\<lparr>pos := Returned\<rparr>)
     (phase_after (splitSentences (spoken (x1\<lparr>pos := Returned\<rparr>))) (ph tid s) as)"
    using q by (simp add: agrees_def)
qed

lemma ordered_iterate:
  assumes inv: "ordered s" and tid: "tid < length (sessions s)"
    and ss1: "sessions s1 = (sessions s)[tid := x1]"
    and sp: "spoken x1 = spoken (sessions s ! tid)"
    and se: "sentences x1 = splitSentences (spoken x1)"
    and tr: "trace s1 = trace s @ as" and own: "\<forall>a \<in> set as. owner a = tid"
    and q: "phase_after (sentences x1) (ph tid s) as = Some q"
    and nx: "j < length (sentences x1) \<Longrightarrow>
        follows (sentences x1) q (Fetch tid j (cleanText (sentences x1 ! j))) = Some (Fetching j)"
  shows "ordered (iterate tid j s1)"
proof (cases "j < length (sentences x1) \<and> \<not> stopPlaybackFlag s1")
  case False
  have "phase_after (splitSentences (spoken x1)) (ph tid s) as \<noteq> None"
    using q se by simp
  then have "ordered (finish tid s1)"
    by (rule ordered_finish [OF inv tid ss1 sp tr own])
  moreover have "iterate tid j s1 = finish tid s1"
    using False tid by (auto simp: iterate_def ss1 Let_def)
  ultimately show ?thesis by simp
next
  case True
  let ?a = "Fetch tid j (cleanText (sentences x1 ! j))"
  let ?x = "x1\<lparr>cur := j, pos := AwaitSpeech\<rparr>"
  have own': "\<forall>a \<in> set (as @ [?a]). owner a = tid" using own by simp
  show ?thesis
  proof (rule ordered_local [OF inv tid _ _ _ own'])
    show "sessions (iterate tid j s1) = (sessions s)[tid := ?x]"
      using True tid by (simp add: iterate_def upd_def emit_def ss1 Let_def)
    show "spoken ?x = spoken (sessions s ! tid)" using sp by simp
    show "trace (iterate tid j s1) = trace s @ as @ [?a]"
      using True tid by (simp add: iterate_def upd_def emit_def ss1 tr Let_def)
    show "agrees ?x (phase_after (splitSentences (spoken ?x)) (ph tid s) (as @ [?a]))"
      using True q nx se by (simp add: agrees_def phase_after_append)
  qed
qed

lemma agrees_at:
  "ordered s \<Longrightarrow> tid < length (sessions s) \<Longrightarrow> agrees (sessions s ! tid) (ph tid s)"
  by (simp add: ordered_def)

lemma ordered_on_ended:
  assumes inv: "ordered s" and w: "waiting tid AwaitEnded s"
  shows "ordered (on_ended tid s)"
proof -
  let ?x = "sessions s ! tid"
  have tid: "tid < length (sessions s)" and p: "pos ?x = AwaitEnded"
    using w by (simp_all add: waiting_def)
  have ag: "ph tid s = Some (SourcePlaying (cur ?x))" "sentences ?x = splitSentences (spoken ?x)"
    using agrees_at [OF inv tid] p by (simp_all add: agrees_def)
  have "ordered (iterate tid (cur ?x + 1) (emit (Ended tid (cur ?x)) s))"
  proof (rule ordered_iterate [OF inv tid, where ?x1.0 = ?x and as = "[Ended tid (cur ?x)]"
        and q = "Completed (cur ?x)"])
    show "sessions (emit (Ended tid (cur ?x)) s) = (sessions s)[tid := ?x]"
      by (simp add: emit_def)
    show "trace (emit (Ended tid (cur ?x)) s) = trace s @ [Ended tid (cur ?x)]"
      by (simp add: emit_def)
    show "phase_after (sentences ?x) (ph tid s) [Ended tid (cur ?x)] = Some (Completed (cur ?x))"
      by (simp add: ag)
  qed (simp_all add: ag)
  then show ?thesis by (simp add: on_ended_def Let_def)
qed


lemma agrees_not_None: "agrees x p \<Longrightarrow> p \<noteq> None"
  by (cases "pos x") (auto simp: agrees_def)

lemma ordered_set_pos:
  assumes inv: "ordered s" and tid: "tid < length (sessions s)"
    and ss1: "sessions s1 = sessions s" and tr: "trace s1 = trace s"
    and ag: "agrees ((sessions s ! tid)\<lparr>pos := p\<rparr>) (ph tid s)"
  shows "ordered (upd tid (\<lambda>x. x\<lparr>pos := p\<rparr>) s1)"
proof (rule ordered_local [OF inv tid, where as = "[]"])
  show "sessions (upd tid (\<lambda>x. x\<lparr>pos := p\<rparr>) s1) = (sessions s)[tid := (sessions s ! tid)\<lparr>pos := p\<rparr>]"
    by (simp add: upd_def ss1)
  show "trace (upd tid (\<lambda>x. x\<lparr>pos := p\<rparr>) s1) = trace s @ []"
    by (simp add: upd_def tr)
  show "agrees ((sessions s ! tid)\<lparr>pos := p\<rparr>)
     (phase_after (splitSentences (spoken ((sessions s ! tid)\<lparr>pos := p\<rparr>))) (ph tid s) [])"
    using ag by simp
qed simp_all

lemma ordered_finish_here:
  assumes inv: "ordered s" and tid: "tid < length (sessions s)"
    and ss1: "sessions s1 = sessions s" and tr: "trace s1 = trace s"
  shows "ordered (finish tid s1)"
proof (rule ordered_finish [OF inv tid, where as = "[]" and ?x1.0 = "sessions s ! tid"])
  show "phase_after (splitSentences (spoken (sessions s ! tid))) (ph tid s) [] \<noteq> None"
    using agrees_not_None [OF agrees_at [OF inv tid]] by simp
qed (simp_all add: ss1 tr)

lemma ordered_log_iterate:
  assumes inv: "ordered s" and tid: "tid < length (sessions s)"
    and f: "ph tid s = Some (Fetching (cur (sessions s ! tid)))"
    and se: "sentences (sessions s ! tid) = splitSentences (spoken (sessions s ! tid))"
  shows "ordered (iterate tid (cur (sessions s ! tid) + 1)
           (emit (LogError tid (cur (sessions s ! tid))) s))"
proof (rule ordered_iterate [OF inv tid, where ?x1.0 = "sessions s ! tid"
      and as = "[LogError tid (cur (sessions s ! tid))]"
      and q = "Completed (cur (sessions s ! tid))"])
  show "sessions (emit (LogError tid (cur (sessions s ! tid))) s)
      = (sessions s)[tid := sessions s ! tid]"
    by (simp add: emit_def)
  show "trace (emit (LogError tid (cur (sessions s ! tid))) s)
      = trace s @ [LogError tid (cur (sessions s ! tid))]"
    by (simp add: emit_def)
  show "phase_after (sentences (sessions s ! tid)) (ph tid s) [LogError tid (cur (sessions s ! tid))]
      = Some (Completed (cur (sessions s ! tid)))"
    by (simp add: f)
qed (simp_all add: se)

lemma ordered_skip_iterate:
  assumes inv: "ordered s" and tid: "tid < length (sessions s)"
    and f: "ph tid s = Some (Fetching (cur (sessions s ! tid)))"
    and se: "sentences (sessions s ! tid) = splitSentences (spoken (sessions s ! tid))"
  shows "ordered (iterate tid (cur (sessions s ! tid) + 1) s)"
proof (rule ordered_iterate [OF inv tid, where ?x1.0 = "sessions s ! tid" and as = "[]"
      and q = "Fetching (cur (sessions s ! tid))"])
  show "phase_after (sentences (sessions s ! tid)) (ph tid s) [] = Some (Fetching (cur (sessions s ! tid)))"
    by (simp add: f)
qed (simp_all add: se)

lemma ordered_on_speech:
  assumes inv: "ordered s" and w: "waiting tid AwaitSpeech s"
  shows "ordered (on_speech tid r s)"
proof -
  let ?x = "sessions s ! tid"
  have tid: "tid < length (sessions s)" and p: "pos ?x = AwaitSpeech"
    using w by (simp_all add: waiting_def)
  have f: "ph tid s = Some (Fetching (cur ?x))" and se: "sentences ?x = splitSentences (spoken ?x)"
    using agrees_at [OF inv tid] p by (simp_all add: agrees_def)
  note lg = ordered_log_iterate [OF inv tid f se]
  note sk = ordered_skip_iterate [OF inv tid f se]
  note fi = ordered_finish_here [OF inv tid refl refl]
  have dc: "ordered (upd tid (\<lambda>x. x\<lparr>pos := AwaitDecode d\<rparr>) s)" for d
    by (rule ordered_set_pos [OF inv tid refl refl]) (simp add: agrees_def f se)
  show ?thesis
  proof (cases r)
    case Rejected
    then show ?thesis using lg by (simp add: on_speech_def Let_def)
  next
    case NoAudio
    then show ?thesis using sk fi by (simp add: on_speech_def Let_def)
  next
    case (Audio b)
    then show ?thesis using lg fi dc by (cases b) (simp_all add: on_speech_def Let_def)
  qed
qed

lemma ordered_on_decoded:
  assumes inv: "ordered s" and tid: "tid < length (sessions s)"
    and p: "pos (sessions s ! tid) = AwaitDecode res"
  shows "ordered (on_decoded tid res s)"
proof -
  let ?x = "sessions s ! tid"
  have f: "ph tid s = Some (Fetching (cur ?x))" and se: "sentences ?x = splitSentences (spoken ?x)"
    using agrees_at [OF inv tid] p by (simp_all add: agrees_def)
  note lg = ordered_log_iterate [OF inv tid f se]
  note sk = ordered_skip_iterate [OF inv tid f se]
  have st: "ordered (upd tid (\<lambda>x. x\<lparr>pos := AwaitEnded\<rparr>) (emit (Start tid (cur ?x)) s))"
  proof (rule ordered_local [OF inv tid, where as = "[Start tid (cur ?x)]"])
    show "sessions (upd tid (\<lambda>x. x\<lparr>pos := AwaitEnded\<rparr>) (emit (Start tid (cur ?x)) s))
        = (sessions s)[tid := ?x\<lparr>pos := AwaitEnded\<rparr>]"
      by (simp add: upd_def emit_def)
    show "trace (upd tid (\<lambda>x. x\<lparr>pos := AwaitEnded\<rparr>) (emit (Start tid (cur ?x)) s))
        = trace s @ [Start tid (cur ?x)]"
      by (simp add: upd_def emit_def)
    show "agrees (?x\<lparr>pos := AwaitEnded\<rparr>)
       (phase_after (splitSentences (spoken (?x\<lparr>pos := AwaitEnded\<rparr>))) (ph tid s) [Start tid (cur ?x)])"
      by (simp add: agrees_def f se)
  qed simp_all
  show ?thesis using lg sk st by (cases res) (simp_all add: on_decoded_def Let_def)
qed

lemma ordered_begin_loop:
  assumes inv: "ordered s" and tid: "tid < length (sessions s)"
    and n: "ph tid s = Some NotStarted"
    and ss1: "sessions s1 = sessions s" and tr: "trace s1 = trace s"
  shows "ordered (begin_loop tid s1)"
proof -
  let ?x = "(sessions s ! tid)\<lparr>sentences := splitSentences (spoken (sessions s ! tid))\<rparr>"
  have "ordered (iterate tid 0 (upd tid (\<lambda>x. x\<lparr>sentences := splitSentences (spoken x)\<rparr>) s1))"
  proof (rule ordered_iterate [OF inv tid, where ?x1.0 = ?x and as = "[]" and q = NotStarted])
    show "sessions (upd tid (\<lambda>x. x\<lparr>sentences := splitSentences (spoken x)\<rparr>) s1)
        = (sessions s)[tid := ?x]"
      by (simp add: upd_def ss1)
    show "trace (upd tid (\<lambda>x. x\<lparr>sentences := splitSentences (spoken x)\<rparr>) s1) = trace s @ []"
      by (simp add: upd_def tr)
    show "phase_after (sentences ?x) (ph tid s) [] = Some NotStarted"
      by (simp add: n)
  qed simp_all
  then show ?thesis by (simp add: begin_loop_def)
qed

lemma ordered_start:
  assumes inv: "ordered s" and tid: "tid < length (sessions s)"
    and n: "ph tid s = Some NotStarted"
    and ss1: "sessions s1 = sessions s" and tr: "trace s1 = trace s"
  shows "ordered (start tid s1)"
proof -
  have bl: "ordered (begin_loop tid s2)" if "sessions s2 = sessions s" "trace s2 = trace s" for s2
    using that by (rule ordered_begin_loop [OF inv tid n])
  have sp: "ordered (upd tid (\<lambda>x. x\<lparr>pos := p\<rparr>) s2)"
    if "sessions s2 = sessions s" "trace s2 = trace s" "p = AwaitResume \<or> p = Threw e" for s2 p e
    using that(1,2)
  proof (rule ordered_set_pos [OF inv tid])
    show "agrees ((sessions s ! tid)\<lparr>pos := p\<rparr>) (ph tid s)"
      using that(3) by (auto simp: agrees_def n)
  qed
  show ?thesis
    unfolding start_def Let_def
    by (auto intro!: bl sp simp: ss1 tr)
qed


lemma ordered_queue: "ordered s \<Longrightarrow> ordered (s\<lparr>ctx_queue := q\<rparr>)"
  by (erule ordered_globals) simp_all

lemma ordered_handleResumePlayback: "ordered s \<Longrightarrow> ordered (handleResumePlayback s)"
  by (simp add: handleResumePlayback_def ordered_queue)

lemma ordered_handlePausePlayback: "ordered s \<Longrightarrow> ordered (handlePausePlayback s)"
  by (simp add: handlePausePlayback_def ordered_queue)

lemma handleStopPlayback_frame:
  "sessions (fst (handleStopPlayback k s)) = sessions s
   \<and> trace (fst (handleStopPlayback k s)) = trace s"
  by (simp add: handleStopPlayback_def Let_def split: option.splits)

lemma ordered_handleStopPlayback: "ordered s \<Longrightarrow> ordered (fst (handleStopPlayback k s))"
  by (erule ordered_globals) (simp_all add: handleStopPlayback_frame)

lemma ordered_handlePlayStory:
  assumes inv: "ordered s"
  shows "ordered (handlePlayStory txt s)"
proof (cases "playbackState s = Paused")
  case True
  then show ?thesis using ordered_handleResumePlayback [OF inv] by (simp add: handlePlayStory_def)
next
  case False
  let ?tid = "length (sessions s)"
  let ?s = "s\<lparr>sessions := sessions s @ [new_session txt]\<rparr>"
  have inv': "ordered ?s"
    by (rule ordered_new_session [OF inv, where x = "new_session txt"]) (simp_all add: new_session_def)
  have tid: "?tid < length (sessions ?s)" by simp
  have x: "sessions ?s ! ?tid = new_session txt" by simp
  have n: "ph ?tid ?s = Some NotStarted"
    using agrees_at [OF inv' tid] by (simp add: agrees_def new_session_def)
  show ?thesis
  proof (cases "playbackState s = Playing")
    case False
    have "ordered (start ?tid ?s)"
      by (rule ordered_start [OF inv' tid n refl refl])
    then show ?thesis using False \<open>playbackState s \<noteq> Paused\<close>
      by (simp add: handlePlayStory_def Let_def)
  next
    case True
    obtain s1 oc where h: "handleStopPlayback (PlayStopK ?tid) ?s = (s1, oc)"
      by (cases "handleStopPlayback (PlayStopK ?tid) ?s")
    have fr: "sessions s1 = sessions ?s" "trace s1 = trace ?s"
      using handleStopPlayback_frame [of "PlayStopK ?tid" ?s] h by simp_all
    have a: "ordered s1"
      using inv' fr by (rule ordered_globals)
    have b: "ordered (upd ?tid (\<lambda>x. x\<lparr>pos := p\<rparr>) s1)" if "p = AwaitTimer \<or> p = Threw e" for p e
      using fr
    proof (rule ordered_set_pos [OF inv' tid])
      show "agrees ((sessions ?s ! ?tid)\<lparr>pos := p\<rparr>) (ph ?tid ?s)"
        using that by (auto simp: agrees_def n)
    qed
    show ?thesis
      using True h a b by (cases oc) (simp_all add: handlePlayStory_def Let_def)
  qed
qed

lemma ordered_settle:
  assumes inv: "ordered s" and st: "settle k s1 = Some s'"
    and ss1: "sessions s1 = sessions s" and tr: "trace s1 = trace s"
  shows "ordered s'"
proof (cases k)
  case StopK
  then have "s' = stop_settled (ctx_becomes Suspended s1)" using st by simp
  then show ?thesis
    using inv by (intro ordered_globals [OF inv]) (simp_all add: stop_settled_def ctx_becomes_def ss1 tr)
next
  case PauseK
  then have "s' = (ctx_becomes Suspended s1)\<lparr>playbackState := Paused\<rparr>" using st by simp
  then show ?thesis
    by (intro ordered_globals [OF inv]) (simp_all add: ctx_becomes_def ss1 tr)
next
  case ResumeK
  then have "s' = (ctx_becomes Running s1)\<lparr>playbackState := Playing\<rparr>" using st by simp
  then show ?thesis
    by (intro ordered_globals [OF inv]) (simp_all add: ctx_becomes_def ss1 tr)
next
  case (PlayStopK tid)
  then have w: "waiting tid AwaitStop s1"
    and e: "s' = upd tid (\<lambda>x. x\<lparr>pos := AwaitTimer\<rparr>) (stop_settled (ctx_becomes Suspended s1))"
    using st by (simp_all split: if_splits)
  have tid: "tid < length (sessions s)" and p: "pos (sessions s ! tid) = AwaitStop"
    using w by (simp_all add: waiting_def ss1)
  have n: "ph tid s = Some NotStarted"
    using agrees_at [OF inv tid] p by (simp add: agrees_def)
  show ?thesis unfolding e
  proof (rule ordered_set_pos [OF inv tid])
    show "agrees ((sessions s ! tid)\<lparr>pos := AwaitTimer\<rparr>) (ph tid s)"
      by (simp add: agrees_def n)
  qed (simp_all add: stop_settled_def ctx_becomes_def ss1 tr)
next
  case (PlayResumeK tid)
  then have w: "waiting tid AwaitResume s1"
    and e: "s' = begin_loop tid (ctx_becomes Running s1)"
    using st by (simp_all split: if_splits)
  have tid: "tid < length (sessions s)" and p: "pos (sessions s ! tid) = AwaitResume"
    using w by (simp_all add: waiting_def ss1)
  have n: "ph tid s = Some NotStarted"
    using agrees_at [OF inv tid] p by (simp add: agrees_def)
  show ?thesis unfolding e
    by (rule ordered_begin_loop [OF inv tid n]) (simp_all add: ctx_becomes_def ss1 tr)
qed

lemma ordered_step:
  assumes inv: "ordered s" and st: "step e s = Some s'"
  shows "ordered s'"
proof (cases e)
  case (Play spoken_text)
  then show ?thesis using st ordered_handlePlayStory [OF inv] by auto
next
  case Pause
  then show ?thesis using st ordered_handlePausePlayback [OF inv] by auto
next
  case Resume
  then show ?thesis using st ordered_handleResumePlayback [OF inv] by auto
next
  case Stop
  then show ?thesis using st ordered_handleStopPlayback [OF inv] by auto
next
  case CtxDone
  then obtain k q where q: "ctx_queue s = k # q" and s': "settle k (s\<lparr>ctx_queue := q\<rparr>) = Some s'"
    using st by (auto split: list.splits)
  show ?thesis by (rule ordered_settle [OF inv s']) simp_all
next
  case (TimerFired tid)
  then have w: "waiting tid AwaitTimer s" and e: "s' = start tid s"
    using st by (simp_all split: if_splits)
  have tid: "tid < length (sessions s)" and p: "pos (sessions s ! tid) = AwaitTimer"
    using w by (simp_all add: waiting_def)
  have n: "ph tid s = Some NotStarted"
    using agrees_at [OF inv tid] p by (simp add: agrees_def)
  show ?thesis unfolding e by (rule ordered_start [OF inv tid n refl refl])
next
  case (SpeechResolved tid r)
  then have w: "waiting tid AwaitSpeech s" and e: "s' = on_speech tid r s"
    using st by (simp_all split: if_splits)
  show ?thesis unfolding e by (rule ordered_on_speech [OF inv w])
next
  case (DecodeDone tid)
  then obtain res where tid: "tid < length (sessions s)"
    and p: "pos (sessions s ! tid) = AwaitDecode res" and e: "s' = on_decoded tid res s"
    using st by (auto split: if_splits pc.splits)
  show ?thesis unfolding e by (rule ordered_on_decoded [OF inv tid p])
next
  case (SourceEnded tid)
  then have w: "waiting tid AwaitEnded s" and e: "s' = on_ended tid s"
    using st by (simp_all split: if_splits)
  show ?thesis unfolding e by (rule ordered_on_ended [OF inv w])
qed

lemma ordered_run: "ordered s \<Longrightarrow> run es s = Some s' \<Longrightarrow> ordered s'"
proof (induction es arbitrary: s)
  case Nil
  then show ?case by simp
next
  case (Cons e es)
  then obtain s1 where s1: "step e s = Some s1" and r: "run es s1 = Some s'"
    by (auto split: option.splits)
  have "ordered s1" using Cons.prems(1) s1 by (rule ordered_step)
  then show ?case using r by (rule Cons.IH)
qed

lemma in_order_reachable:
  assumes "run es (initial ok) = Some s" and "tid < length (sessions s)"
  shows "in_order (splitSentences (spoken (sessions s ! tid))) (session_trace tid (trace s))"
proof -
  have "ordered s" using ordered_initial assms(1) by (rule ordered_run)
  then have "agrees (sessions s ! tid) (ph tid s)" using assms(2) by (rule agrees_at)
  then have "ph tid s \<noteq> None" by (rule agrees_not_None)
  then show ?thesis by (simp add: in_order_def ph_def)
qed

lemma last_sentence_ended:
  assumes w: "waiting tid AwaitEnded s" and c: "audioCtx s = Some Running"
    and l: "cur (sessions s ! tid) + 1 = length (sentences (sessions s ! tid))"
  shows "\<exists>s'. step (SourceEnded tid) s = Some s'
     \<and> playbackState s' = Idle \<and> currentSentenceIdx s' = - 1
     \<and> pos (sessions s' ! tid) = Returned
     \<and> trace s' = trace s @ [Ended tid (cur (sessions s ! tid))]"
  using assms by (simp add: on_ended_def iterate_def finish_def upd_def emit_def waiting_def Let_def)


lemma phase_after_None: "phase_after ss None xs = None"
  by (induction xs) simp_all

lemma phase_after_snoc:
  "phase_after ss p (xs @ [a])
     = (case phase_after ss p xs of None \<Rightarrow> None | Some q \<Rightarrow> follows ss q a)"
  by (simp add: phase_after_append)

lemma follows_Some:
  "follows ss q a = Some p \<Longrightarrow>
     (case p of
        NotStarted \<Rightarrow> False
      | Fetching i \<Rightarrow> (\<exists>t u. a = Fetch t i u)
      | SourcePlaying i \<Rightarrow> (\<exists>t. a = Start t i) \<and> q = Fetching i
      | Completed i \<Rightarrow> (\<exists>t. a = Ended t i \<or> a = LogError t i))"
  by (cases q; cases a) (auto split: if_splits)

lemma phase_last:
  "phase_after ss (Some NotStarted) xs = Some p \<Longrightarrow>
     (case p of
        NotStarted \<Rightarrow> xs = []
      | Fetching i \<Rightarrow> xs \<noteq> [] \<and> (\<exists>t u. last xs = Fetch t i u)
      | SourcePlaying i \<Rightarrow> xs \<noteq> [] \<and> (\<exists>t. last xs = Start t i)
      | Completed i \<Rightarrow> xs \<noteq> [] \<and> (\<exists>t. last xs = Ended t i \<or> last xs = LogError t i))"
proof (induction xs arbitrary: p rule: rev_induct)
  case Nil
  then show ?case by simp
next
  case (snoc a xs)
  from snoc.prems obtain q where "follows ss q a = Some p"
    by (auto simp: phase_after_snoc split: option.splits)
  from follows_Some [OF this] show ?case by (cases p) auto
qed

lemma in_order_split:
  assumes "in_order ss (xs @ ys)"
  obtains p where "phase_after ss (Some NotStarted) xs = Some p"
    and "phase_after ss (Some p) ys \<noteq> None"
proof (cases "phase_after ss (Some NotStarted) xs")
  case None
  then show ?thesis using assms by (simp add: in_order_def phase_after_append phase_after_None)
next
  case (Some p)
  then show ?thesis using assms that by (simp add: in_order_def phase_after_append)
qed

lemma fetch_follows:
  assumes "in_order ss (xs @ Fetch t (Suc j) u # rest)"
  shows "xs \<noteq> [] \<and> (\<exists>t'. last xs = Ended t' j \<or> last xs = LogError t' j
                        \<or> (\<exists>u'. last xs = Fetch t' j u'))"
proof -
  from assms obtain p where p: "phase_after ss (Some NotStarted) xs = Some p"
    and n: "phase_after ss (Some p) (Fetch t (Suc j) u # rest) \<noteq> None"
    by (rule in_order_split)
  have "follows ss p (Fetch t (Suc j) u) \<noteq> None"
    using n by (cases "follows ss p (Fetch t (Suc j) u)") (simp_all add: phase_after_None)
  then have "p = Fetching j \<or> p = Completed j"
    by (cases p) (auto split: if_splits)
  then show ?thesis using phase_last [OF p] by auto
qed

lemma start_then_end:
  assumes "in_order ss (xs @ Start t j # a # rest)"
  shows "\<exists>t'. a = Ended t' j"
proof -
  from assms obtain p where p: "phase_after ss (Some NotStarted) xs = Some p"
    and n: "phase_after ss (Some p) (Start t j # a # rest) \<noteq> None"
    by (rule in_order_split)
  have 1: "follows ss p (Start t j) = Some (SourcePlaying j)"
    using n by (cases p) (auto simp: phase_after_None split: if_splits)
  then have "phase_after ss (Some (SourcePlaying j)) (a # rest) \<noteq> None"
    using n by simp
  then have "follows ss (SourcePlaying j) a \<noteq> None"
    by (cases "follows ss (SourcePlaying j) a") (simp_all add: phase_after_None)
  then show ?thesis by (cases a) (auto split: if_splits)
qed

lemma fetch_is_sentence:
  assumes "in_order ss (xs @ Fetch t j u # rest)"
  shows "j < length ss \<and> u = cleanText (ss ! j)"
proof -
  from assms obtain p where p: "phase_after ss (Some NotStarted) xs = Some p"
    and n: "phase_after ss (Some p) (Fetch t j u # rest) \<noteq> None"
    by (rule in_order_split)
  have "follows ss p (Fetch t j u) \<noteq> None"
    using n by (cases "follows ss p (Fetch t j u)") (simp_all add: phase_after_None)
  then show ?thesis by (cases p) (auto split: if_splits)
qed

lemma example_last_reachable:
  "run [Play (js ''One. Two.''), SpeechResolved 0 (Audio (Inr pcm)), DecodeDone 0, SourceEnded 0,
        SpeechResolved 0 (Audio (Inr pcm)), DecodeDone 0] (initial True) = Some example_last"
  by code_simp

text \<open>
  C2. In every state that the controller reaches from its initial state, by any calls
  and settlings, the trace of each session is in order: the request of sentence
  \<open>j + 1\<close> comes directly after the end of the audio of sentence \<open>j\<close>, or after the
  logged error of \<open>j\<close>, or after the request of \<open>j\<close> when that gave nothing to play;
  after the start of the audio of \<open>j\<close> the session's next action is the end of that
  audio; and the request with index \<open>j\<close> is for the \<open>j\<close>-th sentence of the segmented
  text. When the audio of the last sentence ends, the session returns with the status
  idle and the current index \<open>-1\<close>.
\<close>

theorem C2_sentences_in_order:
  assumes "run es (initial ok) = Some s" and "tid < length (sessions s)"
  shows "in_order (splitSentences (spoken (sessions s ! tid))) (session_trace tid (trace s))
    \<and> (\<forall>xs t j u rest. session_trace tid (trace s) = xs @ Fetch t (Suc j) u # rest \<longrightarrow>
          xs \<noteq> [] \<and> (\<exists>t'. last xs = Ended t' j \<or> last xs = LogError t' j
                           \<or> (\<exists>u'. last xs = Fetch t' j u')))
    \<and> (\<forall>xs t j a rest. session_trace tid (trace s) = xs @ Start t j # a # rest \<longrightarrow>
          (\<exists>t'. a = Ended t' j))
    \<and> (\<forall>xs t j u rest. session_trace tid (trace s) = xs @ Fetch t j u # rest \<longrightarrow>
          j < length (splitSentences (spoken (sessions s ! tid)))
          \<and> u = cleanText (splitSentences (spoken (sessions s ! tid)) ! j))
    \<and> (waiting tid AwaitEnded s \<and> audioCtx s = Some Running
        \<and> cur (sessions s ! tid) + 1 = length (sentences (sessions s ! tid)) \<longrightarrow>
          (\<exists>s'. step (SourceEnded tid) s = Some s'
             \<and> playbackState s' = Idle \<and> currentSentenceIdx s' = - 1
             \<and> pos (sessions s' ! tid) = Returned
             \<and> trace s' = trace s @ [Ended tid (cur (sessions s ! tid))]))"
proof -
  let ?ss = "splitSentences (spoken (sessions s ! tid))"
  let ?tr = "session_trace tid (trace s)"
  have o: "in_order ?ss ?tr" using assms by (rule in_order_reachable)
  have a: "xs \<noteq> [] \<and> (\<exists>t'. last xs = Ended t' j \<or> last xs = LogError t' j
                           \<or> (\<exists>u'. last xs = Fetch t' j u'))"
    if "?tr = xs @ Fetch t (Suc j) u # rest" for xs t j u rest
    using o that fetch_follows [of ?ss xs t j u rest] by simp
  have b: "\<exists>t'. a = Ended t' j" if "?tr = xs @ Start t j # a # rest" for xs t j a rest
    using o that start_then_end [of ?ss xs t j a rest] by simp
  have c: "j < length ?ss \<and> u = cleanText (?ss ! j)"
    if "?tr = xs @ Fetch t j u # rest" for xs t j u rest
    using o that fetch_is_sentence [of ?ss xs t j u rest] by simp
  have d: "\<exists>s'. step (SourceEnded tid) s = Some s'
             \<and> playbackState s' = Idle \<and> currentSentenceIdx s' = - 1
             \<and> pos (sessions s' ! tid) = Returned
             \<and> trace s' = trace s @ [Ended tid (cur (sessions s ! tid))]"
    if "waiting tid AwaitEnded s" "audioCtx s = Some Running"
      "cur (sessions s ! tid) + 1 = length (sentences (sessions s ! tid))"
    using that by (rule last_sentence_ended)
  show ?thesis using o a b c d by blast
qed

theorem C2_sentences_in_order_witness:
  "run [Play (js ''One. Two.''), SpeechResolved 0 (Audio (Inr pcm)), DecodeDone 0, SourceEnded 0,
        SpeechResolved 0 (Audio (Inr pcm)), DecodeDone 0] (initial True) = Some example_last
   \<and> 0 < length (sessions example_last)
   \<and> in_order (splitSentences (spoken (sessions example_last ! 0)))
        (session_trace 0 (trace example_last))
   \<and> waiting 0 AwaitEnded example_last \<and> audioCtx example_last = Some Running
   \<and> cur (sessions example_last ! 0) + 1 = length (sentences (sessions example_last ! 0))
   \<and> (\<exists>s'. step (SourceEnded 0) example_last = Some s'
          \<and> playbackState s' = Idle \<and> currentSentenceIdx s' = - 1
          \<and> pos (sessions s' ! 0) = Returned
          \<and> trace s' = trace example_last @ [Ended 0 (cur (sessions example_last ! 0))])"
proof -
  have l: "0 < length (sessions example_last)" by (simp add: example_last_def)
  have w: "waiting 0 AwaitEnded example_last" by (simp add: example_last_def waiting_def)
  have c: "audioCtx example_last = Some Running" by (simp add: example_last_def)
  have n: "cur (sessions example_last ! 0) + 1 = length (sentences (sessions example_last ! 0))"
    by (simp add: example_last_def)
  show ?thesis
    using C2_sentences_in_order [OF example_last_reachable l] example_last_reachable l w c n
    by blast
qed

subsection \<open>Stopping\<close>

text \<open>The events that are settlings of promises, not calls by the user interface.\<close>

fun settles :: "event \<Rightarrow> bool" where
  "settles (Play spoken_text) = False"
| "settles Pause = False"
| "settles Resume = False"
| "settles Stop = False"
| "settles e = True"

text \<open>
  The invariant after a stop: the flag is set, no session is about to start over, there
  is a context, and the last pending call on the context is the \<open>suspend()\<close> of a stop
  or, with nothing pending, the context is suspended; and once nothing is pending the
  status is idle with no current sentence.
\<close>

definition halting :: "sys \<Rightarrow> bool" where
  "halting s =
     (stopPlaybackFlag s
      \<and> (\<forall>x \<in> set (sessions s). pos x \<noteq> AwaitStop \<and> pos x \<noteq> AwaitTimer)
      \<and> audioCtx s \<noteq> None
      \<and> (if ctx_queue s = [] then audioCtx s = Some Suspended else last (ctx_queue s) = StopK))"

definition stopping :: "sys \<Rightarrow> bool" where
  "stopping s =
     (halting s \<and> (ctx_queue s = [] \<longrightarrow> playbackState s = Idle \<and> currentSentenceIdx s = - 1))"

text \<open>
  A session inside its loop, or at the \<open>resume()\<close> before it, has a device context: a
  context is made before the loop is entered and is never dropped or closed while the
  component is mounted. \<open>in_loop\<close> are the awaits from \<open>resume()\<close> on; \<open>idle_pc\<close>
  are the points a session can stand at without a context.
\<close>

definition in_loop :: "pc \<Rightarrow> bool" where
  "in_loop p = (case p of AwaitResume \<Rightarrow> True | AwaitSpeech \<Rightarrow> True | AwaitDecode r \<Rightarrow> True
     | AwaitEnded \<Rightarrow> True | _ \<Rightarrow> False)"

definition idle_pc :: "pc \<Rightarrow> bool" where
  "idle_pc p = (case p of AwaitTimer \<Rightarrow> True | Returned \<Rightarrow> True | Threw e \<Rightarrow> True | _ \<Rightarrow> False)"

definition grounded :: "sys \<Rightarrow> bool" where
  "grounded s =
     (audioCtx s \<noteq> Some Closed
      \<and> (audioCtx s = None \<longrightarrow> (\<forall>i < length (sessions s). idle_pc (pos (sessions s ! i)))))"

lemma set_update_pos:
  "\<forall>x \<in> set xs. P (pos x) \<Longrightarrow> P (pos y) \<Longrightarrow> \<forall>x \<in> set (xs[i := y]). P (pos x)"
  by (metis insertE set_update_subset_insert subsetD)

lemma halting_upd:
  assumes h: "halting s"
    and p: "tid < length (sessions s) \<Longrightarrow>
        pos (f (sessions s ! tid)) \<noteq> AwaitStop \<and> pos (f (sessions s ! tid)) \<noteq> AwaitTimer"
  shows "halting (upd tid f s)"
proof (cases "tid < length (sessions s)")
  case True
  have "\<forall>x \<in> set ((sessions s)[tid := f (sessions s ! tid)]). pos x \<noteq> AwaitStop \<and> pos x \<noteq> AwaitTimer"
    by (rule set_update_pos) (use h p [OF True] in \<open>simp_all add: halting_def\<close>)
  then show ?thesis using h by (simp add: halting_def upd_def)
next
  case False
  then have "(sessions s)[tid := f (sessions s ! tid)] = sessions s"
    by (simp add: list_update_beyond)
  then show ?thesis using h by (simp add: halting_def upd_def)
qed

lemma halting_emit: "halting s \<Longrightarrow> halting (emit a s)"
  by (simp add: halting_def emit_def)

lemma stopping_finish: "halting s \<Longrightarrow> stopping (finish tid s)"
proof -
  assume h: "halting s"
  let ?s = "s\<lparr>playbackState := Idle, currentSentenceIdx := - 1\<rparr>"
  have "halting ?s" using h by (simp add: halting_def)
  then have "halting (upd tid (\<lambda>x. x\<lparr>pos := Returned\<rparr>) ?s)"
    by (rule halting_upd) simp_all
  then show ?thesis by (simp add: stopping_def finish_def upd_def)
qed

lemma iterate_flagged: "stopPlaybackFlag s \<Longrightarrow> iterate tid j s = finish tid s"
  by (simp add: iterate_def Let_def)

lemma stopping_iterate: "halting s \<Longrightarrow> stopping (iterate tid j s)"
  using stopping_finish [of s tid] by (simp add: iterate_flagged halting_def)

lemma stopping_on_speech: "halting s \<Longrightarrow> stopping (on_speech tid r s)"
proof -
  assume h: "halting s"
  then have f: "stopPlaybackFlag s" by (simp add: halting_def)
  have a: "stopping (iterate tid j (emit a s))" for j a
    using h by (intro stopping_iterate halting_emit)
  have b: "stopping (finish tid s)" using h by (rule stopping_finish)
  show ?thesis using a b f by (cases r) (simp_all add: on_speech_def Let_def)
qed

lemma stopping_on_decoded: "halting s \<Longrightarrow> stopping (on_decoded tid res s)"
proof -
  assume h: "halting s"
  then have f: "stopPlaybackFlag s" by (simp add: halting_def)
  have a: "stopping (iterate tid j (emit a s))" for j a
    using h by (intro stopping_iterate halting_emit)
  have b: "stopping (iterate tid j s)" for j using h by (rule stopping_iterate)
  show ?thesis using a b f by (cases res) (simp_all add: on_decoded_def Let_def)
qed

lemma stopping_on_ended: "halting s \<Longrightarrow> stopping (on_ended tid s)"
  by (simp add: on_ended_def Let_def stopping_iterate halting_emit)

lemma stopping_begin_loop: "halting s \<Longrightarrow> stopping (begin_loop tid s)"
proof -
  assume h: "halting s"
  have "halting (upd tid (\<lambda>x. x\<lparr>sentences := splitSentences (spoken x)\<rparr>) s)"
    using h by (rule halting_upd) (use h in \<open>simp add: halting_def\<close>)
  then show ?thesis unfolding begin_loop_def by (rule stopping_iterate)
qed

lemma last_tail: "last (k # q) = StopK \<Longrightarrow> k \<noteq> StopK \<Longrightarrow> q \<noteq> [] \<and> last q = StopK"
  by (cases q) auto

lemma stopping_settle:
  assumes st: "stopping s" and q: "ctx_queue s = k # q"
    and se: "settle k (s\<lparr>ctx_queue := q\<rparr>) = Some s'"
  shows "stopping s'"
proof -
  have h: "halting s" using st by (simp add: stopping_def)
  have l: "last (k # q) = StopK" using h q by (simp add: halting_def)
  have rest: "q \<noteq> [] \<and> last q = StopK" if "k \<noteq> StopK"
    using l that by (rule last_tail)
  have hq: "halting (ctx_becomes c (s\<lparr>ctx_queue := q\<rparr>))" if "k \<noteq> StopK" for c
    using h rest [OF that] by (auto simp: halting_def ctx_becomes_def)
  show ?thesis
  proof (cases k)
    case StopK
    have "q \<noteq> [] \<longrightarrow> last q = StopK" using l by (cases q) auto
    then show ?thesis using se h StopK
      by (auto simp: stopping_def halting_def stop_settled_def ctx_becomes_def)
  next
    case PauseK
    then show ?thesis using se hq [of Suspended] rest
      by (auto simp: stopping_def halting_def ctx_becomes_def)
  next
    case ResumeK
    then show ?thesis using se hq [of Running] rest
      by (auto simp: stopping_def halting_def ctx_becomes_def)
  next
    case (PlayStopK tid)
    then have "waiting tid AwaitStop (s\<lparr>ctx_queue := q\<rparr>)" using se by (simp split: if_splits)
    then have "pos (sessions s ! tid) = AwaitStop" "sessions s ! tid \<in> set (sessions s)"
      by (simp_all add: waiting_def)
    then show ?thesis using h by (auto simp: halting_def)
  next
    case (PlayResumeK tid)
    then have "s' = begin_loop tid (ctx_becomes Running (s\<lparr>ctx_queue := q\<rparr>))"
      using se by (simp split: if_splits)
    then show ?thesis using stopping_begin_loop [OF hq [of Running]] PlayResumeK by simp
  qed
qed

lemma stopping_step:
  assumes st: "stopping s" and e: "settles e" and s': "step e s = Some s'"
  shows "stopping s'"
proof -
  have h: "halting s" using st by (simp add: stopping_def)
  show ?thesis
  proof (cases e)
    case CtxDone
    then obtain k q where "ctx_queue s = k # q" "settle k (s\<lparr>ctx_queue := q\<rparr>) = Some s'"
      using s' by (auto split: list.splits)
    then show ?thesis using st by (intro stopping_settle [of s k q s'])
  next
    case (TimerFired tid)
    then have "waiting tid AwaitTimer s" using s' by (simp split: if_splits)
    then have "pos (sessions s ! tid) = AwaitTimer" "sessions s ! tid \<in> set (sessions s)"
      by (simp_all add: waiting_def)
    then show ?thesis using h by (auto simp: halting_def)
  next
    case (SpeechResolved tid r)
    then have "s' = on_speech tid r s" using s' by (simp split: if_splits)
    then show ?thesis using stopping_on_speech [OF h] by simp
  next
    case (DecodeDone tid)
    then obtain res where "s' = on_decoded tid res s"
      using s' by (auto split: if_splits pc.splits)
    then show ?thesis using stopping_on_decoded [OF h] by simp
  next
    case (SourceEnded tid)
    then have "s' = on_ended tid s" using s' by (simp split: if_splits)
    then show ?thesis using stopping_on_ended [OF h] by simp
  qed (use e in simp_all)
qed

lemma stopping_run:
  "stopping s \<Longrightarrow> \<forall>e \<in> set es. settles e \<Longrightarrow> run es s = Some s' \<Longrightarrow> stopping s'"
proof (induction es arbitrary: s)
  case Nil
  then show ?case by simp
next
  case (Cons e es)
  then obtain s1 where s1: "step e s = Some s1" and r: "run es s1 = Some s'"
    by (auto split: option.splits)
  have "stopping s1" using Cons.prems(1) _ s1 by (rule stopping_step) (use Cons.prems(2) in simp)
  then show ?case using Cons.prems(2) r by (intro Cons.IH) simp_all
qed

lemma stopping_after_Stop:
  assumes "audioCtx s = Some c" and "c \<noteq> Closed"
    and "\<forall>x \<in> set (sessions s). pos x \<noteq> AwaitStop \<and> pos x \<noteq> AwaitTimer"
  shows "\<exists>s1. step Stop s = Some s1 \<and> stopping s1
     \<and> s1 = s\<lparr>stopPlaybackFlag := True, ctx_queue := ctx_queue s @ [StopK]\<rparr>"
  using assms by (simp add: handleStopPlayback_def stopping_def halting_def)

lemma stop_settles_with_context:
  assumes "audioCtx s = Some c" and "c \<noteq> Closed"
    and "\<forall>x \<in> set (sessions s). pos x \<noteq> AwaitStop \<and> pos x \<noteq> AwaitTimer"
    and "\<forall>e \<in> set es. settles e"
    and "run (Stop # es) s = Some s'"
    and "ctx_queue s' = []"
  shows "playbackState s' = Idle \<and> currentSentenceIdx s' = - 1
     \<and> stopPlaybackFlag s' \<and> audioCtx s' = Some Suspended"
proof -
  from stopping_after_Stop [OF assms(1-3)] obtain s1
    where s1: "step Stop s = Some s1" and st: "stopping s1" by blast
  have "run es s1 = Some s'" using assms(5) s1 by simp
  then have "stopping s'" using st assms(4) by (intro stopping_run [of s1 es s'])
  then show ?thesis using assms(6) by (simp add: stopping_def halting_def)
qed


lemma audioCtx_upd [simp]: "audioCtx (upd tid f s) = audioCtx s"
  by (simp add: upd_def)

lemma audioCtx_emit [simp]: "audioCtx (emit a s) = audioCtx s"
  by (simp add: emit_def)

lemma audioCtx_finish [simp]: "audioCtx (finish tid s) = audioCtx s"
  by (simp add: finish_def)

lemma audioCtx_iterate [simp]: "audioCtx (iterate tid j s) = audioCtx s"
  by (simp add: iterate_def Let_def)

lemma audioCtx_begin_loop [simp]: "audioCtx (begin_loop tid s) = audioCtx s"
  by (simp add: begin_loop_def)

lemma audioCtx_on_speech [simp]: "audioCtx (on_speech tid r s) = audioCtx s"
  by (cases r) (simp_all add: on_speech_def Let_def split: sum.splits)

lemma audioCtx_on_decoded [simp]: "audioCtx (on_decoded tid res s) = audioCtx s"
  by (cases res) (simp_all add: on_decoded_def Let_def)

lemma audioCtx_on_ended [simp]: "audioCtx (on_ended tid s) = audioCtx s"
  by (simp add: on_ended_def Let_def)

lemma audioCtx_handleStopPlayback [simp]: "audioCtx (fst (handleStopPlayback k s)) = audioCtx s"
  by (simp add: handleStopPlayback_def Let_def split: option.splits)

lemma grounded_with_context:
  "audioCtx s = Some c \<Longrightarrow> c \<noteq> Closed \<Longrightarrow> grounded s"
  by (simp add: grounded_def)

lemma audioCtx_start:
  "audioCtx s = Some c \<Longrightarrow> c \<noteq> Closed \<Longrightarrow> audioCtx (start tid s) = Some c"
  by (cases c) (simp_all add: start_def Let_def)

lemma audioCtx_settle:
  "audioCtx s = Some c \<Longrightarrow> settle k s = Some s' \<Longrightarrow> \<exists>c'. audioCtx s' = Some c' \<and> c' \<noteq> Closed"
  by (cases k) (auto simp: stop_settled_def ctx_becomes_def split: if_splits)

lemma context_stays:
  assumes c: "audioCtx s = Some c" and n: "c \<noteq> Closed" and st: "step e s = Some s'"
  shows "\<exists>c'. audioCtx s' = Some c' \<and> c' \<noteq> Closed"
proof (cases e)
  case (Play spoken_text)
  let ?s = "s\<lparr>sessions := sessions s @ [new_session spoken_text]\<rparr>"
  have a: "audioCtx (start (length (sessions s)) ?s) = Some c"
    using c n by (intro audioCtx_start) simp_all
  have b: "audioCtx (handleResumePlayback s) = Some c"
    using c by (simp add: handleResumePlayback_def)
  have d: "audioCtx (case handleStopPlayback k ?s of
      (s, Pending) \<Rightarrow> s
    | (s, Fulfilled) \<Rightarrow> upd tid (\<lambda>x. x\<lparr>pos := AwaitTimer\<rparr>) s
    | (s, Failed e) \<Rightarrow> upd tid (\<lambda>x. x\<lparr>pos := Threw e\<rparr>) s) = Some c" for k tid
    using c by (simp add: handleStopPlayback_def Let_def)
  show ?thesis using Play st a b d n by (auto simp: handlePlayStory_def Let_def)
next
  case Pause
  then show ?thesis using st c n by (auto simp: handlePausePlayback_def)
next
  case Resume
  then show ?thesis using st c n by (auto simp: handleResumePlayback_def)
next
  case Stop
  then show ?thesis using st c n by auto
next
  case CtxDone
  then obtain k q where "settle k (s\<lparr>ctx_queue := q\<rparr>) = Some s'"
    using st by (auto split: list.splits)
  then show ?thesis using audioCtx_settle [of "s\<lparr>ctx_queue := q\<rparr>" c k s'] c by simp
next
  case (TimerFired tid)
  then show ?thesis using st audioCtx_start [OF c n, of tid] n by (auto split: if_splits)
next
  case (SpeechResolved tid r)
  then show ?thesis using st c n by (auto split: if_splits)
next
  case (DecodeDone tid)
  then show ?thesis using st c n by (auto split: if_splits pc.splits)
next
  case (SourceEnded tid)
  then show ?thesis using st c n by (auto split: if_splits)
qed

lemma idle_update:
  "\<forall>i < length xs. i \<noteq> tid \<longrightarrow> idle_pc (pos (xs ! i)) \<Longrightarrow> idle_pc (pos y) \<Longrightarrow>
     i < length xs \<Longrightarrow> idle_pc (pos (xs[tid := y] ! i))"
  by (cases "i = tid") simp_all

lemma grounded_set_idle:
  assumes g: "\<forall>i < length (sessions s). i \<noteq> tid \<longrightarrow> idle_pc (pos (sessions s ! i))"
    and p: "idle_pc p" and c: "audioCtx s \<noteq> Some Closed"
  shows "grounded (upd tid (\<lambda>x. x\<lparr>pos := p\<rparr>) s)"
proof -
  have "idle_pc (pos ((sessions s)[tid := (sessions s ! tid)\<lparr>pos := p\<rparr>] ! i))"
    if "i < length (sessions s)" for i
    using g _ that by (rule idle_update) (simp add: p)
  then show ?thesis using c by (simp add: grounded_def upd_def)
qed

lemma grounded_start:
  assumes g: "\<forall>i < length (sessions s). i \<noteq> tid \<longrightarrow> idle_pc (pos (sessions s ! i))"
    and n: "audioCtx s = None"
  shows "grounded (start tid s)"
proof (cases "audio_ok s")
  case True
  then show ?thesis using n by (simp add: start_def Let_def grounded_def)
next
  case False
  let ?s = "s\<lparr>playbackState := Playing, stopPlaybackFlag := False, currentSentenceIdx := - 1\<rparr>"
  have "grounded (upd tid (\<lambda>x. x\<lparr>pos := Threw NotSupportedError\<rparr>) ?s)"
    by (rule grounded_set_idle) (use g n in \<open>simp_all add: idle_pc_def\<close>)
  then show ?thesis using False n by (simp add: start_def Let_def)
qed

lemma grounded_step:
  assumes g: "grounded s" and st: "step e s = Some s'"
  shows "grounded s'"
proof (cases "audioCtx s")
  case (Some c)
  then have "c \<noteq> Closed" using g by (auto simp: grounded_def)
  from context_stays [OF Some this st] show ?thesis
    by (auto intro: grounded_with_context)
next
  case None
  have idle: "\<forall>i < length (sessions s). idle_pc (pos (sessions s ! i))"
    using g None by (simp add: grounded_def)
  have nw: "\<not> waiting tid p s" if "\<not> idle_pc p" for tid p
    using idle that by (auto simp: waiting_def)
  show ?thesis
  proof (cases e)
    case (Play spoken_text)
    let ?tid = "length (sessions s)"
    let ?s = "s\<lparr>sessions := sessions s @ [new_session spoken_text]\<rparr>"
    have others: "\<forall>i < length (sessions ?s). i \<noteq> ?tid \<longrightarrow> idle_pc (pos (sessions ?s ! i))"
      using idle by (simp add: nth_append)
    have a: "grounded (start ?tid ?s)"
      using others by (rule grounded_start) (simp add: None)
    have b: "grounded (handleResumePlayback s)"
      using g None by (simp add: handleResumePlayback_def)
    have d: "grounded (upd ?tid (\<lambda>x. x\<lparr>pos := AwaitTimer\<rparr>) (?s\<lparr>stopPlaybackFlag := True\<rparr>))"
      by (rule grounded_set_idle) (use others None in \<open>simp_all add: idle_pc_def\<close>)
    have h: "handleStopPlayback k ?s = (?s\<lparr>stopPlaybackFlag := True\<rparr>, Fulfilled)" for k
      using None by (simp add: handleStopPlayback_def)
    show ?thesis using Play st a b d h by (auto simp: handlePlayStory_def Let_def)
  next
    case Pause
    then show ?thesis using st g None by (auto simp: handlePausePlayback_def)
  next
    case Resume
    then show ?thesis using st g None by (auto simp: handleResumePlayback_def)
  next
    case Stop
    then show ?thesis using st g None by (auto simp: handleStopPlayback_def grounded_def)
  next
    case CtxDone
    then obtain k q where se: "settle k (s\<lparr>ctx_queue := q\<rparr>) = Some s'"
      using st by (auto split: list.splits)
    have w: "\<not> waiting tid p (s\<lparr>ctx_queue := q\<rparr>)" if "\<not> idle_pc p" for tid p
      using nw [OF that] by (simp add: waiting_def)
    show ?thesis using se g None w [of AwaitStop] w [of AwaitResume]
      by (cases k) (auto simp: grounded_def stop_settled_def ctx_becomes_def idle_pc_def)
  next
    case (TimerFired tid)
    then have "s' = start tid s" using st by (simp split: if_splits)
    moreover have "grounded (start tid s)"
      using idle None by (intro grounded_start) simp_all
    ultimately show ?thesis by simp
  next
    case (SpeechResolved tid r)
    then show ?thesis using st nw [of AwaitSpeech tid] by (simp add: idle_pc_def split: if_splits)
  next
    case (DecodeDone tid)
    then obtain res where "waiting tid (AwaitDecode res) s"
      using st by (auto simp: waiting_def split: if_splits pc.splits)
    then show ?thesis using nw [of "AwaitDecode res" tid] by (simp add: idle_pc_def)
  next
    case (SourceEnded tid)
    then show ?thesis using st nw [of AwaitEnded tid] by (simp add: idle_pc_def split: if_splits)
  qed
qed

lemma grounded_run: "grounded s \<Longrightarrow> run es s = Some s' \<Longrightarrow> grounded s'"
proof (induction es arbitrary: s)
  case Nil
  then show ?case by simp
next
  case (Cons e es)
  then obtain s1 where s1: "step e s = Some s1" and r: "run es s1 = Some s'"
    by (auto split: option.splits)
  have "grounded s1" using Cons.prems(1) s1 by (rule grounded_step)
  then show ?case using r by (rule Cons.IH)
qed

lemma grounded_initial: "grounded (initial ok)"
  by (simp add: grounded_def initial_def)

lemma loop_has_context:
  assumes r: "run es (initial ok) = Some s" and x: "x \<in> set (sessions s)" and l: "in_loop (pos x)"
  shows "\<exists>c. audioCtx s = Some c \<and> c \<noteq> Closed"
proof -
  have g: "grounded s" using grounded_initial r by (rule grounded_run)
  obtain i where i: "i < length (sessions s)" "x = sessions s ! i"
    using x by (auto simp: in_set_conv_nth)
  have "\<not> idle_pc (pos x)" using l by (cases "pos x") (simp_all add: in_loop_def idle_pc_def)
  then have "audioCtx s \<noteq> None" using g i by (auto simp: grounded_def)
  then show ?thesis using g by (auto simp: grounded_def)
qed

lemma example_playing_reachable:
  "run [Play (js ''One. Two.'')] (initial True) = Some example_playing"
  by (simp add: example_playing_def)

text \<open>
  When the stop does settle. In a state that the controller has reached, a session
  stands at one of its awaits from the \<open>resume()\<close> on: its speech, its decoding, the end
  of its audio. No other call of \<open>handlePlayStory\<close> is still in its start-up (at the
  stop it awaits, or at its timer). \<open>handleStopPlayback\<close> is called, whatever the
  status. Then, after any settlings of promises, once no \<open>suspend()\<close> or \<open>resume()\<close> is
  pending, the status is idle, the current index is \<open>-1\<close>, the flag is set and the
  context is suspended.
\<close>

lemma stop_settles_idle:
  assumes "run es0 (initial ok) = Some s"
    and "x \<in> set (sessions s)" and "in_loop (pos x)"
    and "\<forall>y \<in> set (sessions s). pos y \<noteq> AwaitStop \<and> pos y \<noteq> AwaitTimer"
    and "\<forall>e \<in> set es. settles e"
    and "run (Stop # es) s = Some s'"
    and "ctx_queue s' = []"
  shows "playbackState s' = Idle \<and> currentSentenceIdx s' = - 1
     \<and> stopPlaybackFlag s' \<and> audioCtx s' = Some Suspended"
proof -
  from loop_has_context [OF assms(1-3)] obtain c where "audioCtx s = Some c" "c \<noteq> Closed"
    by blast
  then show ?thesis using assms(4-7) by (rule stop_settles_with_context)
qed

lemma stop_settles_idle_example:
  "run [Play (js ''One. Two.''), SpeechResolved 0 (Audio (Inr pcm)), DecodeDone 0, SourceEnded 0,
        SpeechResolved 0 (Audio (Inr pcm)), DecodeDone 0] (initial True) = Some example_last
   \<and> sessions example_last ! 0 \<in> set (sessions example_last)
   \<and> in_loop (pos (sessions example_last ! 0))
   \<and> list_all (\<lambda>y. pos y \<noteq> AwaitStop \<and> pos y \<noteq> AwaitTimer) (sessions example_last)
   \<and> list_all settles [CtxDone]
   \<and> (\<exists>s'. run [Stop, CtxDone] example_last = Some s' \<and> ctx_queue s' = []
          \<and> playbackState s' = Idle \<and> currentSentenceIdx s' = - 1
          \<and> stopPlaybackFlag s' \<and> audioCtx s' = Some Suspended)
   \<and> run [Play (js ''One. Two.'')] (initial True) = Some example_playing
   \<and> sessions example_playing ! 0 \<in> set (sessions example_playing)
   \<and> in_loop (pos (sessions example_playing ! 0))
   \<and> list_all (\<lambda>y. pos y \<noteq> AwaitStop \<and> pos y \<noteq> AwaitTimer) (sessions example_playing)
   \<and> list_all settles [SpeechResolved 0 (Audio (Inr pcm)), CtxDone]
   \<and> (\<exists>s'. run [Stop, SpeechResolved 0 (Audio (Inr pcm)), CtxDone] example_playing = Some s'
          \<and> ctx_queue s' = []
          \<and> playbackState s' = Idle \<and> currentSentenceIdx s' = - 1
          \<and> stopPlaybackFlag s' \<and> audioCtx s' = Some Suspended)"
proof -
  have m: "sessions example_last ! 0 \<in> set (sessions example_last)"
    by (simp add: example_last_def)
  have l: "in_loop (pos (sessions example_last ! 0))"
    by (simp add: example_last_def in_loop_def)
  have b: "\<forall>y \<in> set (sessions example_last). pos y \<noteq> AwaitStop \<and> pos y \<noteq> AwaitTimer"
    by (simp add: example_last_def)
  have c: "\<forall>e \<in> set [CtxDone]. settles e" by simp
  have "case run [Stop, CtxDone] example_last of None \<Rightarrow> False | Some s' \<Rightarrow> ctx_queue s' = []"
    by code_simp
  then obtain s' where r: "run [Stop, CtxDone] example_last = Some s'" and q: "ctx_queue s' = []"
    by (auto split: option.splits)
  have 1: "\<exists>s'. run [Stop, CtxDone] example_last = Some s' \<and> ctx_queue s' = []
          \<and> playbackState s' = Idle \<and> currentSentenceIdx s' = - 1
          \<and> stopPlaybackFlag s' \<and> audioCtx s' = Some Suspended"
    using stop_settles_idle [OF example_last_reachable m l b c r q] r q by simp
  have w: "waiting 0 AwaitSpeech example_playing" by (rule example_playing_waiting)
  then have m': "sessions example_playing ! 0 \<in> set (sessions example_playing)"
    and l': "in_loop (pos (sessions example_playing ! 0))"
    by (simp_all add: waiting_def in_loop_def)
  have b': "list_all (\<lambda>y. pos y \<noteq> AwaitStop \<and> pos y \<noteq> AwaitTimer) (sessions example_playing)"
    by code_simp
  then have b'': "\<forall>y \<in> set (sessions example_playing). pos y \<noteq> AwaitStop \<and> pos y \<noteq> AwaitTimer"
    by (simp add: list_all_iff)
  have c': "\<forall>e \<in> set [SpeechResolved 0 (Audio (Inr pcm)), CtxDone]. settles e" by simp
  have "case run [Stop, SpeechResolved 0 (Audio (Inr pcm)), CtxDone] example_playing of
      None \<Rightarrow> False | Some s' \<Rightarrow> ctx_queue s' = []"
    by code_simp
  then obtain s2 where r': "run [Stop, SpeechResolved 0 (Audio (Inr pcm)), CtxDone] example_playing
      = Some s2" and q': "ctx_queue s2 = []"
    by (auto split: option.splits)
  have 2: "\<exists>s'. run [Stop, SpeechResolved 0 (Audio (Inr pcm)), CtxDone] example_playing = Some s'
          \<and> ctx_queue s' = []
          \<and> playbackState s' = Idle \<and> currentSentenceIdx s' = - 1
          \<and> stopPlaybackFlag s' \<and> audioCtx s' = Some Suspended"
    using stop_settles_idle [OF example_playing_reachable m' l' b'' c' r' q'] r' q' by simp
  have bl: "list_all (\<lambda>y. pos y \<noteq> AwaitStop \<and> pos y \<noteq> AwaitTimer) (sessions example_last)"
    using b by (simp add: list_all_iff)
  have cl: "list_all settles [CtxDone]" by simp
  have cl': "list_all settles [SpeechResolved 0 (Audio (Inr pcm)), CtxDone]" by simp
  show ?thesis
    using example_last_reachable m l bl cl 1 example_playing_reachable m' l' b' cl' 2
    by - (intro conjI, assumption+)
qed

text \<open>
  C3. \<open>handleStopPlayback\<close> called while the status is \<open>playing\<close> should always
  leave, after settling, the status idle and no current sentence. In the code a call of
  \<open>handlePlayStory\<close> that is restarting the playback, and stands at the stop it awaits
  or at its timer, goes on after the stop of the user has settled: it sets the status to
  \<open>playing\<close> and clears the flag. Here the status is \<open>playing\<close> and a second call of
  \<open>handlePlayStory\<close> has begun; the user stops; both \<open>suspend()\<close> calls settle, the
  timer fires and the \<open>resume()\<close> settles. Nothing of the stop is pending any more, and
  the status is \<open>playing\<close>, the current index 0, the flag clear and the context
  running; the restarted session then starts its audio. Also, on a device where no
  context could be made, the status is \<open>playing\<close> and the stop only sets the flag.
\<close>

theorem C3_stop_overridden_by_restart:
  "observe (run [Play (js ''One. Two.''), Play (js ''cat'')] (initial True))
     = Some (Playing, 0, Some Running, True, [AwaitSpeech, AwaitStop], [PlayStopK 1],
             [Fetch 0 0 (js ''One.'')])
   \<and> observe (run [Play (js ''One. Two.''), Play (js ''cat''), Stop,
                   CtxDone, CtxDone, TimerFired 1, CtxDone] (initial True))
     = Some (Playing, 0, Some Running, False, [AwaitSpeech, AwaitSpeech], [],
             [Fetch 0 0 (js ''One.''), Fetch 1 0 (js ''cat'')])
   \<and> observe (run [Play (js ''One. Two.''), Play (js ''cat''), Stop,
                   CtxDone, CtxDone, TimerFired 1, CtxDone,
                   SpeechResolved 1 (Audio (Inr pcm)), DecodeDone 1] (initial True))
     = Some (Playing, 0, Some Running, False, [AwaitSpeech, AwaitEnded], [],
             [Fetch 0 0 (js ''One.''), Fetch 1 0 (js ''cat''), Start 1 0])
   \<and> observe (run [Play (js ''One. Two.''), Stop] (initial False))
     = Some (Playing, - 1, None, True, [Threw NotSupportedError], [], [])"
  by code_simp

end
